theory Spec2Isabelle
  imports Complex_Main "HOL-Library.Sublist" "HOL-Library.Product_Lexorder"
begin

section \<open>Strings and character classes\<close>

text \<open>
  A Python \<open>str\<close> is modelled as a \<open>string\<close> whose characters are the code points
  0 to 255 (Latin-1). On that range the three character functions the program relies on
  are written out from CPython's tables: \<open>str.isspace\<close> (which is also the class \<open>\s\<close> of
  \<open>re\<close>), the class \<open>\w\<close> of \<open>re\<close>, and \<open>str.lower\<close>.
\<close>

definition isspace :: "char \<Rightarrow> bool" where
  "isspace c =
     (let n = (of_char c :: nat)
      in (9 \<le> n \<and> n \<le> 13) \<or> (28 \<le> n \<and> n \<le> 32) \<or> n = 133 \<or> n = 160)"

definition is_word :: "char \<Rightarrow> bool" where
  "is_word c =
     (let n = (of_char c :: nat)
      in (48 \<le> n \<and> n \<le> 57) \<or> (65 \<le> n \<and> n \<le> 90) \<or> n = 95 \<or> (97 \<le> n \<and> n \<le> 122)
         \<or> n = 170 \<or> n = 178 \<or> n = 179 \<or> n = 181 \<or> n = 185 \<or> n = 186
         \<or> (188 \<le> n \<and> n \<le> 190) \<or> (192 \<le> n \<and> n \<le> 214)
         \<or> (216 \<le> n \<and> n \<le> 246) \<or> 248 \<le> n)"

definition lower_char :: "char \<Rightarrow> char" where
  "lower_char c =
     (let n = (of_char c :: nat)
      in if (65 \<le> n \<and> n \<le> 90) \<or> (192 \<le> n \<and> n \<le> 222 \<and> n \<noteq> 215)
         then char_of (n + 32) else c)"

definition lower :: "string \<Rightarrow> string" where
  "lower s = map lower_char s"

text \<open>\<open>str.strip()\<close>: leading and trailing whitespace removed.\<close>

definition lstrip :: "string \<Rightarrow> string" where
  "lstrip s = dropWhile isspace s"

definition rstrip :: "string \<Rightarrow> string" where
  "rstrip s = rev (dropWhile isspace (rev s))"

definition strip :: "string \<Rightarrow> string" where
  "strip s = rstrip (lstrip s)"

text \<open>\<open>str.startswith\<close>.\<close>

definition startswith :: "string \<Rightarrow> string \<Rightarrow> bool" where
  "startswith s w = (take (length w) s = w)"

section \<open>The regular expressions of the program\<close>

text \<open>
  The constructs that occur in the four patterns of \<open>nlq_sql.py\<close>: a literal, the
  greedy \<open>\s*\<close>, \<open>\b\<close>, \<open>^\<close>, \<open>$\<close>, concatenation, alternation and the
  greedy optional group \<open>(?:r)?\<close>.
\<close>

datatype regex =
    Lit string
  | StarSpace
  | WordB
  | Bol
  | Eol
  | Seq regex regex
  | Alt regex regex
  | Opt regex

text \<open>
  The matcher works on a suffix of the subject together with the character just before
  it (\<open>None\<close> at the start of the subject). \<open>ends ic r p s\<close> lists the lengths of the
  matches of \<open>r\<close> that start here, in the order in which a backtracking matcher tries
  them; the match \<open>re\<close> reports is the head of the list. \<open>ic\<close> is the flag
  \<open>re.IGNORECASE\<close>.
\<close>

definition fold_case :: "bool \<Rightarrow> string \<Rightarrow> string" where
  "fold_case ic s = (if ic then lower s else s)"

definition prev_at :: "char option \<Rightarrow> string \<Rightarrow> nat \<Rightarrow> char option" where
  "prev_at p s n = (if n = 0 then p else Some (s ! (n - 1)))"

definition word_before :: "char option \<Rightarrow> bool" where
  "word_before p = (case p of None \<Rightarrow> False | Some c \<Rightarrow> is_word c)"

definition word_after :: "string \<Rightarrow> bool" where
  "word_after s = (case s of [] \<Rightarrow> False | c # _ \<Rightarrow> is_word c)"

fun ends :: "bool \<Rightarrow> regex \<Rightarrow> char option \<Rightarrow> string \<Rightarrow> nat list" where
  "ends ic (Lit w) p s =
     (if fold_case ic (take (length w) s) = fold_case ic w then [length w] else [])"
| "ends ic StarSpace p s = rev [0 ..< Suc (length (takeWhile isspace s))]"
| "ends ic WordB p s = (if word_before p \<noteq> word_after s then [0] else [])"
| "ends ic Bol p s = (if p = None then [0] else [])"
| "ends ic Eol p s = (if s = [] \<or> s = [CHR 0x0A] then [0] else [])"
| "ends ic (Seq a b) p s =
     concat (map (\<lambda>n. map ((+) n) (ends ic b (prev_at p s n) (drop n s))) (ends ic a p s))"
| "ends ic (Alt a b) p s = ends ic a p s @ ends ic b p s"
| "ends ic (Opt a) p s = ends ic a p s @ [0]"

lemma length_fold_case: "length (fold_case ic s) = length s"
  by (simp add: fold_case_def lower_def)

lemma ends_le_length: "n \<in> set (ends ic r p s) \<Longrightarrow> n \<le> length s"
proof (induction r arbitrary: n p s)
  case (Lit w)
  then have "fold_case ic (take (length w) s) = fold_case ic w" and "n = length w"
    by (auto split: if_splits)
  then have "length (take (length w) s) = length w"
    by (metis length_fold_case)
  with \<open>n = length w\<close> show ?case by simp
next
  case StarSpace
  then have "n \<le> length (takeWhile isspace s)" by auto
  also have "\<dots> \<le> length s" by (rule length_takeWhile_le)
  finally show ?case .
next
  case (Seq a b)
  then obtain k m where k: "k \<in> set (ends ic a p s)"
    and m: "m \<in> set (ends ic b (prev_at p s k) (drop k s))" and n: "n = k + m"
    by auto
  from Seq.IH(1)[OF k] Seq.IH(2)[OF m] n show ?case by simp
qed (auto split: if_splits)

lemma re_scan_measure:
  assumes "(if adv then filter (\<lambda>n. n \<noteq> 0) (ends ic r p s) else ends ic r p s) = n # ns"
  shows "2 * length (drop n s) + (if n = 0 then 0 else 1) < 2 * length s + (if adv then 0 else 1)"
proof -
  have "n \<in> set (if adv then filter (\<lambda>n. n \<noteq> 0) (ends ic r p s) else ends ic r p s)"
    using assms by simp
  then have mem: "n \<in> set (ends ic r p s)" and adv: "adv \<Longrightarrow> n \<noteq> 0"
    by (auto split: if_splits)
  from mem have "n \<le> length s" by (rule ends_le_length)
  with adv show ?thesis by (cases "n = 0") auto
qed

text \<open>
  The scan shared by \<open>re.findall\<close> and \<open>re.sub\<close>: matches are searched from left to
  right and do not overlap; a character that starts no match is passed over. After an
  empty match the next match at the same place has to be non-empty (the parameter
  \<open>adv\<close>, CPython's \<open>must_advance\<close>). The result lists the characters passed over
  (\<open>Inl\<close>) and the matched texts (\<open>Inr\<close>) in order.
\<close>

function re_scan :: "bool \<Rightarrow> regex \<Rightarrow> bool \<Rightarrow> char option \<Rightarrow> string \<Rightarrow> (char + string) list" where
  "re_scan ic r adv p s =
     (case (if adv then filter (\<lambda>n. n \<noteq> 0) (ends ic r p s) else ends ic r p s) of
        n # _ \<Rightarrow> Inr (take n s) # re_scan ic r (n = 0) (prev_at p s n) (drop n s)
      | [] \<Rightarrow> (case s of
                 [] \<Rightarrow> []
               | c # cs \<Rightarrow> Inl c # re_scan ic r False (Some c) cs))"
  by pat_completeness auto
termination
  by (relation "measure (\<lambda>(ic, r, adv, p, s). 2 * length s + (if adv then 0 else 1))")
     (use re_scan_measure in auto)

declare re_scan.simps [simp del]

definition findall :: "regex \<Rightarrow> string \<Rightarrow> bool \<Rightarrow> string list" where
  "findall r s ic = [m. Inr m \<leftarrow> re_scan ic r False None s]"

definition sub :: "regex \<Rightarrow> string \<Rightarrow> string \<Rightarrow> string" where
  "sub r repl s =
     concat (map (\<lambda>x. case x of Inl c \<Rightarrow> [c] | Inr m \<Rightarrow> repl) (re_scan False r False None s))"

section \<open>Validator\<close>

text \<open>
  The patterns of \<open>Validator\<close>. \<open>count_forbidden_tokens\<close> builds its pattern from the
  configured tokens, joined by \<open>|\<close> inside one group between two \<open>\b\<close>; the tokens
  are taken as literals (the configured ones consist of letters only).
\<close>

fun alts :: "regex list \<Rightarrow> regex" where
  "alts [] = Lit []"
| "alts [r] = r"
| "alts (r # rs) = Alt r (alts rs)"

definition forbidden_pattern :: "string list \<Rightarrow> regex" where
  "forbidden_pattern toks = Seq WordB (Seq (alts (map Lit toks)) WordB)"

definition join_pattern :: regex where
  "join_pattern = Seq WordB (Seq (Lit ''join'') WordB)"

definition subquery_pattern :: regex where
  "subquery_pattern = Seq (Lit ''('') (Seq StarSpace (Seq (Lit ''select'') WordB))"

text \<open>\<open>Config.FORBIDDEN_TOKENS\<close>.\<close>

definition FORBIDDEN_TOKENS :: "string list" where
  "FORBIDDEN_TOKENS = [''insert'', ''update'', ''delete'', ''drop'', ''create'', ''alter'']"

datatype py_exception = MySQLError string | OtherException string

text \<open>\<open>str(e)\<close> of an exception: its message.\<close>

fun str_exception :: "py_exception \<Rightarrow> string" where
  "str_exception (MySQLError m) = m"
| "str_exception (OtherException m) = m"

text \<open>
  \<open>validate_syntax\<close>: \<open>sqlparse.parse\<close> is a library outside the repository and is a
  parameter here; it returns the number of statements it parsed, or raises. Any exception
  is caught and gives \<open>False\<close>.
\<close>

definition validate_syntax :: "(string \<Rightarrow> py_exception + nat) \<Rightarrow> string \<Rightarrow> bool" where
  "validate_syntax sqlparse_parse sql =
     (case sqlparse_parse sql of Inl e \<Rightarrow> False | Inr n \<Rightarrow> n > 0)"

definition count_forbidden_tokens :: "string list \<Rightarrow> string \<Rightarrow> nat" where
  "count_forbidden_tokens forbidden_tokens sql =
     length (findall (forbidden_pattern forbidden_tokens) sql True)"

definition compute_complexity :: "string \<Rightarrow> nat" where
  "compute_complexity sql =
     length (findall join_pattern sql True) + length (findall subquery_pattern sql True)"

text \<open>
  The validator object held by the application: the three methods \<open>run\<close> calls.
  \<open>Validator\<close> is the constructor of the class.
\<close>

record validator =
  v_validate_syntax :: "string \<Rightarrow> bool"
  v_count_forbidden_tokens :: "string \<Rightarrow> nat"
  v_compute_complexity :: "string \<Rightarrow> nat"

definition Validator :: "(string \<Rightarrow> py_exception + nat) \<Rightarrow> string list \<Rightarrow> validator" where
  "Validator sqlparse_parse forbidden_tokens =
     \<lparr> v_validate_syntax = validate_syntax sqlparse_parse,
       v_count_forbidden_tokens = count_forbidden_tokens forbidden_tokens,
       v_compute_complexity = compute_complexity \<rparr>"

section \<open>Code-fence stripping\<close>

text \<open>
  Lines 420 to 422 of \<open>run\<close> (and again 442 to 444): \<open>strip()\<close>, then the opening fence
  with an optional \<open>sql\<close> tag and the whitespace after it is removed, then the closing
  fence with the whitespace before it.
\<close>

definition fence :: string where
  "fence = [CHR 0x60, CHR 0x60, CHR 0x60]"

definition fence_open_pattern :: regex where
  "fence_open_pattern = Seq Bol (Seq (Lit fence) (Seq (Opt (Lit ''sql'')) StarSpace))"

definition fence_close_pattern :: regex where
  "fence_close_pattern = Seq StarSpace (Seq (Lit fence) Eol)"

definition strip_code_fence :: "string \<Rightarrow> string" where
  "strip_code_fence raw =
     (let sql = strip raw;
          sql = sub fence_open_pattern [] sql;
          sql = sub fence_close_pattern [] sql
      in sql)"

section \<open>The database handler\<close>

text \<open>
  The events of a run, in the order in which they happen: the calls to the four crews,
  to the validator and to \<open>execute_sql_query\<close>. What the model and the database answer
  may depend on everything that happened before, so every external operation takes the
  events so far.
\<close>

datatype event =
    IntentCall string
  | GenCall string
  | ValidateCall string
  | DdlCall string
  | ExecCall string
  | RegenCall string string string

datatype cell = Null | IntCell int | TextCell string

type_synonym row = "(string \<times> cell) list"

text \<open>A live connection: what \<open>cursor.execute\<close> and \<open>fetchall\<close> give for a statement.\<close>

type_synonym connection = "event list \<Rightarrow> string \<Rightarrow> py_exception + row list"

record database_handler =
  conn :: "connection option"

text \<open>
  \<open>DatabaseHandler.__init__\<close>: a \<open>mysql.connector.Error\<close> of \<open>connect\<close> is logged and
  leaves \<open>conn = None\<close>; any other exception propagates.
\<close>

definition DatabaseHandler :: "py_exception + connection \<Rightarrow> py_exception + database_handler" where
  "DatabaseHandler connect =
     (case connect of
        Inr c \<Rightarrow> Inr \<lparr> conn = Some c \<rparr>
      | Inl (MySQLError m) \<Rightarrow> Inr \<lparr> conn = None \<rparr>
      | Inl e \<Rightarrow> Inl e)"

record dataframe =
  df_columns :: "string list"
  df_rows :: "cell option list list"

text \<open>
  \<open>pd.DataFrame(rows)\<close> for a list of dictionaries: the columns are the keys in the
  order of their first appearance, a missing key gives an empty cell. \<open>pd.DataFrame()\<close>
  is \<open>DataFrame []\<close>.
\<close>

definition DataFrame :: "row list \<Rightarrow> dataframe" where
  "DataFrame rs =
     (let cols = rev (remdups (rev (concat (map (map fst) rs))))
      in \<lparr> df_columns = cols, df_rows = map (\<lambda>r. map (map_of r) cols) rs \<rparr>)"

definition head :: "dataframe \<Rightarrow> dataframe" where
  "head df = df\<lparr> df_rows := take 5 (df_rows df) \<rparr>"

definition execute_sql_query ::
  "database_handler \<Rightarrow> event list \<Rightarrow> string \<Rightarrow> py_exception + dataframe" where
  "execute_sql_query h tr sql_query =
     (case conn h of
        None \<Rightarrow> Inr (DataFrame [])
      | Some c \<Rightarrow>
          (case c tr sql_query of
             Inl e \<Rightarrow> Inl e
           | Inr rows \<Rightarrow> Inr (DataFrame rows)))"

section \<open>The application\<close>

text \<open>
  \<open>SQLApp\<close>: the schema text of the configuration, the validator, the database handler
  and the four crews \<open>run\<close> uses (\<open>kickoff\<close> gives the text of the answer, or raises),
  together with the library functions \<open>run\<close> calls: the clock, \<open>DataFrame.to_string\<close>,
  the formatting of a float with three decimals, and \<open>input\<close>.
\<close>

record sqlapp =
  TABLE_SCHEMA :: string
  validator :: validator
  db_handler :: database_handler
  intent_crew :: "event list \<Rightarrow> string \<Rightarrow> py_exception + string"
  gen_crew :: "event list \<Rightarrow> string \<Rightarrow> py_exception + string"
  ddl_crew :: "event list \<Rightarrow> string \<Rightarrow> py_exception + string"
  verify_crew :: "event list \<Rightarrow> string \<Rightarrow> string \<Rightarrow> string \<Rightarrow> py_exception + string"
  perf_counter :: "event list \<Rightarrow> real"
  to_string :: "dataframe \<Rightarrow> string"
  format_3f :: "real \<Rightarrow> string"
  input_line :: "py_exception + string"

fun str_nat :: "nat \<Rightarrow> string" where
  "str_nat n =
     (if n < 10 then [char_of (48 + n)] else str_nat (n div 10) @ [char_of (48 + n mod 10)])"

declare str_nat.simps [simp del]

definition str_bool :: "bool \<Rightarrow> string" where
  "str_bool b = (if b then ''True'' else ''False'')"

text \<open>The f-string of lines 451 to 459.\<close>

definition format_metrics ::
  "string \<Rightarrow> string \<Rightarrow> nat \<Rightarrow> nat \<Rightarrow> bool \<Rightarrow> nat \<Rightarrow> nat \<Rightarrow> string" where
  "format_metrics gen_time exec_time n_rows n_cols syntax_ok forbidden_count complexity =
     ''Generation Time: '' @ gen_time @ ''s'' @ [CHR 0x0A] @
     ''Execution Time: '' @ exec_time @ ''s'' @ [CHR 0x0A] @
     ''Rows Returned: '' @ str_nat n_rows @ [CHR 0x0A] @
     ''Columns: '' @ str_nat n_cols @ [CHR 0x0A] @
     ''Syntax Valid: '' @ str_bool syntax_ok @ [CHR 0x0A] @
     ''Forbidden Tokens: '' @ str_nat forbidden_count @ [CHR 0x0A] @
     ''Query Complexity: '' @ str_nat complexity"

text \<open>
  Lines 432 to 448: the \<open>try\<close> with its handler. The result is the final SQL, the data
  frame and the execution time, or the exception that leaves \<open>run\<close>; the second
  component is the list of events after it.
\<close>

definition execute_with_regeneration ::
  "sqlapp \<Rightarrow> event list \<Rightarrow> string \<Rightarrow> (py_exception + string \<times> dataframe \<times> real) \<times> event list" where
  "execute_with_regeneration app tr sql =
     (let exec_start = perf_counter app tr;
          tr1 = tr @ [ExecCall sql]
      in case execute_sql_query (db_handler app) tr sql of
           Inr df \<Rightarrow> (Inr (sql, df, perf_counter app tr1 - exec_start), tr1)
         | Inl e \<Rightarrow>
             (let tr2 = tr1 @ [RegenCall sql (TABLE_SCHEMA app) (str_exception e)]
              in case verify_crew app tr1 sql (TABLE_SCHEMA app) (str_exception e) of
                   Inl e2 \<Rightarrow> (Inl e2, tr2)
                 | Inr regen \<Rightarrow>
                     (let sql2 = strip_code_fence regen;
                          exec_start2 = perf_counter app tr2;
                          tr3 = tr2 @ [ExecCall sql2]
                      in case execute_sql_query (db_handler app) tr2 sql2 of
                           Inl e3 \<Rightarrow> (Inl e3, tr3)
                         | Inr df \<Rightarrow>
                             (Inr (sql2, df, perf_counter app tr3 - exec_start2), tr3))))"

text \<open>Line 410: \<open>q = query_input or input(...)\<close>.\<close>

definition query_of :: "sqlapp \<Rightarrow> string option \<Rightarrow> py_exception + string" where
  "query_of app query_input =
     (case query_input of
        None \<Rightarrow> input_line app
      | Some s \<Rightarrow> if s = [] then input_line app else Inr s)"

text \<open>
  \<open>SQLApp.run\<close>. The first component is the returned triple, or the exception that
  propagates to the caller; the second is the list of events of the run.
\<close>

definition run ::
  "sqlapp \<Rightarrow> string option \<Rightarrow> (py_exception + string \<times> string \<times> string) \<times> event list" where
  "run app query_input =
     (case query_of app query_input of
        Inl e \<Rightarrow> (Inl e, [])
      | Inr q \<Rightarrow>
          (let tr1 = [IntentCall q]
           in case intent_crew app [] q of
                Inl e \<Rightarrow> (Inl e, tr1)
              | Inr intent \<Rightarrow>
                  if strip (lower intent) \<noteq> ''valid''
                  then (Inr (''Invalid query'', [], []), tr1)
                  else
                    (let start = perf_counter app tr1;
                         tr2 = tr1 @ [GenCall q]
                     in case gen_crew app tr1 q of
                          Inl e \<Rightarrow> (Inl e, tr2)
                        | Inr raw \<Rightarrow>
                            (let gen_time = perf_counter app tr2 - start;
                                 sql = strip_code_fence raw;
                                 syntax_ok = v_validate_syntax (validator app) sql;
                                 forbidden_count = v_count_forbidden_tokens (validator app) sql;
                                 complexity = v_compute_complexity (validator app) sql;
                                 tr3 = tr2 @ [ValidateCall sql];
                                 tr4 = tr3 @ [DdlCall sql]
                             in case ddl_crew app tr3 sql of
                                  Inl e \<Rightarrow> (Inl e, tr4)
                                | Inr ddl_check \<Rightarrow>
                                    if startswith (lower ddl_check) ''error''
                                    then (Inr (''DDL operations not allowed.'', [], []), tr4)
                                    else
                                      (case execute_with_regeneration app tr4 sql of
                                         (Inl e, tr5) \<Rightarrow> (Inl e, tr5)
                                       | (Inr (sql', df, exec_time), tr5) \<Rightarrow>
                                           (Inr (sql',
                                                 to_string app (head df),
                                                 format_metrics (format_3f app gen_time)
                                                   (format_3f app exec_time)
                                                   (length (df_rows df)) (length (df_columns df))
                                                   syntax_ok forbidden_count complexity),
                                            tr5))))))"

section \<open>A concrete application for the examples\<close>

text \<open>
  A small instance of the application on which the theorems below are evaluated: the
  crews answer with fixed texts, and the connection rejects one statement (an unknown
  column) and returns six rows for every other.
\<close>

definition demo_rows :: "row list" where
  "demo_rows =
     map (\<lambda>n. [(''supplier_id'', IntCell n), (''country'', TextCell ''Germany'')])
       [1, 2, 3, 4, 5, 6]"

definition demo_conn :: connection where
  "demo_conn tr sql =
     (if sql = ''SELECT land''
      then Inl (MySQLError ''1054 (42S22): Unknown column'')
      else Inr demo_rows)"

definition demo_app :: "string \<Rightarrow> string \<Rightarrow> string \<Rightarrow> string \<Rightarrow> sqlapp" where
  "demo_app intent generated ddl regenerated =
     \<lparr> TABLE_SCHEMA = ''suppliers (supplier_id, country)'',
       validator = Validator (\<lambda>sql. Inr 1) FORBIDDEN_TOKENS,
       db_handler = \<lparr> conn = Some demo_conn \<rparr>,
       intent_crew = (\<lambda>tr q. Inr intent),
       gen_crew = (\<lambda>tr q. Inr generated),
       ddl_crew = (\<lambda>tr sql. Inr ddl),
       verify_crew = (\<lambda>tr sql schema err. Inr regenerated),
       perf_counter = (\<lambda>tr. real (length tr)),
       to_string = (\<lambda>df. str_nat (length (df_rows df)) @ '' rows''),
       format_3f = (\<lambda>x. ''0.000''),
       input_line = Inl (OtherException ''EOFError'') \<rparr>"

fun is_exec :: "event \<Rightarrow> bool" where
  "is_exec (ExecCall sql) = True"
| "is_exec _ = False"

fun is_regen :: "event \<Rightarrow> bool" where
  "is_regen (RegenCall sql schema err) = True"
| "is_regen _ = False"

section \<open>Properties of \<open>run\<close>\<close>

lemma isspace_lower_char: "isspace (lower_char c) = isspace c"
  unfolding isspace_def lower_char_def Let_def
  by (auto simp: Let_def)

lemma strip_lower: "strip (lower s) = lower (strip s)"
  by (simp add: strip_def lstrip_def rstrip_def lower_def dropWhile_map rev_map comp_def
      isspace_lower_char)

lemma demo_intent_valid: "strip (lower ''Valid'') = ''valid''"
  by code_simp

lemma demo_intent_invalid: "lower (strip ''Invalid'') \<noteq> ''valid''"
  by code_simp

lemma demo_fence_land: "strip_code_fence ''SELECT land'' = ''SELECT land''"
  by code_simp

lemma demo_fence_country: "strip_code_fence ''SELECT country'' = ''SELECT country''"
  by code_simp

lemma demo_ddl_ok: "\<not> startswith (lower ''OK'') ''error''"
  by code_simp

lemma demo_str_nat_5: "str_nat (Suc (Suc (Suc (Suc (Suc 0))))) = ''5''"
  by code_simp

lemma demo_str_nat_6: "str_nat (Suc (Suc (Suc (Suc (Suc (Suc 0)))))) = ''6''"
  by code_simp

lemma demo_str_nat_2: "str_nat (Suc (Suc 0)) = ''2''"
  by code_simp

lemma demo_str_nat_0: "str_nat 0 = ''0''"
  by code_simp

lemma demo_forbidden_0: "count_forbidden_tokens FORBIDDEN_TOKENS ''SELECT country'' = 0"
  by code_simp

lemma demo_complexity_0: "compute_complexity ''SELECT country'' = 0"
  by code_simp

text \<open>
  C2. When the answer of the intent check, trimmed and lowercased, is not \<open>valid\<close>,
  \<open>run\<close> returns \<open>("Invalid query", "", "")\<close> and the only event of the run is the
  intent check itself: no SQL is generated, the validator and the DDL gate are not
  invoked, and \<open>execute_sql_query\<close> is not called.
\<close>

theorem intent_rejected:
  assumes "query_of app query_input = Inr q"
    and "intent_crew app [] q = Inr intent"
    and "lower (strip intent) \<noteq> ''valid''"
  shows "run app query_input = (Inr (''Invalid query'', [], []), [IntentCall q])"
  using assms by (simp add: run_def strip_lower)

theorem intent_rejected_witness:
  "run (demo_app ''Invalid'' ''SELECT 1'' ''OK'' []) (Some ''Tell me a joke'')
     = (Inr (''Invalid query'', [], []), [IntentCall ''Tell me a joke''])"
  by (rule intent_rejected[where intent = "''Invalid''"])
     (simp_all add: query_of_def demo_app_def demo_intent_invalid)

lemma demo_fence_DELETE: "strip_code_fence ''DELETE FROM t'' = ''DELETE FROM t''"
  by code_simp

lemma demo_ddl_error: "startswith (lower ''Error: DELETE'') ''error''"
  by code_simp

text \<open>
  C3, as the code has it. For a run that reaches the DDL gate, the gate blocks exactly
  when the answer of the gate, lowercased, begins with \<open>error\<close>: then \<open>run\<close> returns
  \<open>("DDL operations not allowed.", "", "")\<close> and the events of the run end with the call
  to the gate, so the SQL is never executed; otherwise the SQL is executed.
\<close>

theorem ddl_gate_blocks_on_error_prefix:
  assumes "query_of app query_input = Inr q"
    and "intent_crew app [] q = Inr intent"
    and "strip (lower intent) = ''valid''"
    and "gen_crew app [IntentCall q] q = Inr raw"
    and "ddl_crew app [IntentCall q, GenCall q, ValidateCall (strip_code_fence raw)]
           (strip_code_fence raw) = Inr ddl_check"
  shows "(startswith (lower ddl_check) ''error'' \<longrightarrow>
            run app query_input =
              (Inr (''DDL operations not allowed.'', [], []),
               [IntentCall q, GenCall q, ValidateCall (strip_code_fence raw),
                DdlCall (strip_code_fence raw)]))
       \<and> (\<not> startswith (lower ddl_check) ''error'' \<longrightarrow>
            ExecCall (strip_code_fence raw) \<in> set (snd (run app query_input)))"
  using assms
  by (auto simp add: run_def Let_def execute_with_regeneration_def split: sum.splits prod.splits)


theorem ddl_gate_witness:
  "run (demo_app ''Valid'' ''DELETE FROM t'' ''Error: DELETE'' []) (Some ''clear t'')
     = (Inr (''DDL operations not allowed.'', [], []),
        [IntentCall ''clear t'', GenCall ''clear t'', ValidateCall ''DELETE FROM t'',
         DdlCall ''DELETE FROM t''])
   \<and> ExecCall ''SELECT country''
        \<in> set (snd (run (demo_app ''Valid'' ''SELECT country'' ''OK'' []) (Some ''countries?'')))"
  using ddl_gate_blocks_on_error_prefix[of "demo_app ''Valid'' ''DELETE FROM t'' ''Error: DELETE'' []"
      "Some ''clear t''" "''clear t''" "''Valid''" "''DELETE FROM t''" "''Error: DELETE''"]
    ddl_gate_blocks_on_error_prefix[of "demo_app ''Valid'' ''SELECT country'' ''OK'' []"
      "Some ''countries?''" "''countries?''" "''Valid''" "''SELECT country''" "''OK''"]
  by (simp add: query_of_def demo_app_def demo_intent_valid demo_fence_DELETE demo_ddl_error
      demo_fence_country demo_ddl_ok)

text \<open>
  The gate does not compare with the exact string \<open>ERROR\<close>: an answer that only begins
  with \<open>Error\<close> blocks the run as well.
\<close>

theorem ddl_gate_exact_match_counterexample:
  "fst (run (demo_app ''Valid'' ''DELETE FROM t'' ''Error: DELETE'' []) (Some ''clear t''))
     = Inr (''DDL operations not allowed.'', [], [])
   \<and> list_all (\<lambda>e. \<not> is_exec e)
        (snd (run (demo_app ''Valid'' ''DELETE FROM t'' ''Error: DELETE'' []) (Some ''clear t'')))
   \<and> ''Error: DELETE'' \<noteq> ''ERROR''"
  by (simp add: run_def query_of_def demo_app_def demo_intent_valid demo_fence_DELETE
      demo_ddl_error Let_def)


text \<open>
  C4. Without a connection \<open>execute_sql_query\<close> returns the empty data frame and does
  not raise. With a live connection, a statement the database rejects raises the
  database's exception, and a statement that ran returns its rows (none, when there are
  none): on a live connection the result is an exception exactly when the statement
  failed.
\<close>

theorem execute_sql_query_failure_modes:
  "(conn h = None \<longrightarrow>
      execute_sql_query h tr sql = Inr (DataFrame []) \<and> df_rows (DataFrame []) = [])
   \<and> (\<forall>c e. conn h = Some c \<and> c tr sql = Inl e \<longrightarrow> execute_sql_query h tr sql = Inl e)
   \<and> (\<forall>c rows. conn h = Some c \<and> c tr sql = Inr rows \<longrightarrow>
          execute_sql_query h tr sql = Inr (DataFrame rows)
          \<and> length (df_rows (DataFrame rows)) = length rows)"
  by (simp add: execute_sql_query_def DataFrame_def Let_def)

theorem execute_sql_query_failure_modes_witness:
  "execute_sql_query \<lparr> conn = None \<rparr> [] ''SELECT land'' = Inr (DataFrame [])
   \<and> execute_sql_query \<lparr> conn = Some demo_conn \<rparr> [] ''SELECT land''
        = Inl (MySQLError ''1054 (42S22): Unknown column'')
   \<and> execute_sql_query \<lparr> conn = Some (\<lambda>tr sql. Inr []) \<rparr> [] ''SELECT land''
        = Inr (DataFrame [])"
  using execute_sql_query_failure_modes[of "\<lparr> conn = None \<rparr>" "[]" "''SELECT land''"]
    execute_sql_query_failure_modes[of "\<lparr> conn = Some demo_conn \<rparr>" "[]" "''SELECT land''"]
    execute_sql_query_failure_modes[of "\<lparr> conn = Some (\<lambda>tr sql. Inr []) \<rparr>" "[]" "''SELECT land''"]
  by (simp add: demo_conn_def)

text \<open>
  C5. The validation report never gates: replacing the validator of an application by any
  other (whatever its three methods answer) changes neither the events of a run, in
  particular not whether \<open>execute_sql_query\<close> is called, nor the SQL and the preview
  that \<open>run\<close> returns. The report only appears in the metrics text.
\<close>

lemma query_of_validator: "query_of (app\<lparr> validator := v \<rparr>) query_input = query_of app query_input"
  by (simp add: query_of_def split: option.split)

lemma execute_with_regeneration_validator:
  "execute_with_regeneration (app\<lparr> validator := v \<rparr>) tr sql = execute_with_regeneration app tr sql"
  by (simp add: execute_with_regeneration_def Let_def split: sum.split)

theorem validation_report_never_gates:
  "snd (run (app\<lparr> validator := v \<rparr>) query_input) = snd (run app query_input)
   \<and> list_ex is_exec (snd (run (app\<lparr> validator := v \<rparr>) query_input))
       = list_ex is_exec (snd (run app query_input))
   \<and> map_sum id (\<lambda>(sql, result, metrics). (sql, result))
         (fst (run (app\<lparr> validator := v \<rparr>) query_input))
       = map_sum id (\<lambda>(sql, result, metrics). (sql, result)) (fst (run app query_input))"
proof (cases "query_of app query_input")
  case (Inl e)
  then show ?thesis by (simp add: run_def query_of_validator Let_def)
next
  case q: (Inr q)
  show ?thesis
  proof (cases "intent_crew app [] q")
    case (Inl e)
    with q show ?thesis by (simp add: run_def query_of_validator Let_def)
  next
    case intent: (Inr intent)
    show ?thesis
    proof (cases "gen_crew app [IntentCall q] q")
      case (Inl e)
      with q intent show ?thesis by (simp add: run_def query_of_validator Let_def)
    next
      case gen: (Inr raw)
      show ?thesis
      proof (cases "ddl_crew app [IntentCall q, GenCall q, ValidateCall (strip_code_fence raw)]
                      (strip_code_fence raw)")
        case (Inl e)
        with q intent gen show ?thesis by (simp add: run_def query_of_validator Let_def)
      next
        case ddl: (Inr ddl_check)
        obtain r tr5 where ex: "execute_with_regeneration app
            [IntentCall q, GenCall q, ValidateCall (strip_code_fence raw),
             DdlCall (strip_code_fence raw)] (strip_code_fence raw) = (r, tr5)"
          by (cases "execute_with_regeneration app
            [IntentCall q, GenCall q, ValidateCall (strip_code_fence raw),
             DdlCall (strip_code_fence raw)] (strip_code_fence raw)") auto
        from q intent gen ddl ex show ?thesis
          by (cases r)
             (auto simp add: run_def query_of_validator execute_with_regeneration_validator Let_def)
      qed
    qed
  qed
qed

text \<open>
  C1. In a run whose first execution raises, the regeneration is invoked exactly once,
  with the SQL that failed, the schema text and the text of the exception, and
  \<open>execute_sql_query\<close> is called at most twice. When the regeneration returns, the
  events of the run are exactly: the first execution, the regeneration, the execution of
  the regenerated SQL with its code fence stripped; if that second execution raises as
  well, its exception leaves \<open>run\<close>, and if it succeeds \<open>run\<close> returns the regenerated
  SQL. (When the call to the regeneration crew itself raises, there is no regenerated
  SQL and that exception leaves \<open>run\<close>.)
\<close>

theorem regeneration_exactly_once:
  fixes app :: sqlapp and q raw :: string
  defines "schema \<equiv> TABLE_SCHEMA app"
    and "sql \<equiv> strip_code_fence raw"
    and "tr \<equiv> [IntentCall q, GenCall q, ValidateCall (strip_code_fence raw),
                 DdlCall (strip_code_fence raw)]"
  assumes q: "query_of app query_input = Inr q"
    and intent: "intent_crew app [] q = Inr intent" "strip (lower intent) = ''valid''"
    and gen: "gen_crew app [IntentCall q] q = Inr raw"
    and ddl: "ddl_crew app [IntentCall q, GenCall q, ValidateCall sql] sql = Inr ddl_check"
      "\<not> startswith (lower ddl_check) ''error''"
    and first: "execute_sql_query (db_handler app) tr sql = Inl e"
  shows "length (filter is_regen (snd (run app query_input))) = 1
     \<and> RegenCall sql schema (str_exception e) \<in> set (snd (run app query_input))
     \<and> length (filter is_exec (snd (run app query_input))) \<le> 2
     \<and> (\<forall>regen. verify_crew app (tr @ [ExecCall sql]) sql schema (str_exception e) = Inr regen \<longrightarrow>
          snd (run app query_input)
            = tr @ [ExecCall sql, RegenCall sql schema (str_exception e),
                    ExecCall (strip_code_fence regen)]
          \<and> length (filter is_exec (snd (run app query_input))) = 2
          \<and> (\<forall>e2. execute_sql_query (db_handler app)
                     (tr @ [ExecCall sql, RegenCall sql schema (str_exception e)])
                     (strip_code_fence regen) = Inl e2 \<longrightarrow>
                   fst (run app query_input) = Inl e2)
          \<and> (\<forall>df. execute_sql_query (db_handler app)
                     (tr @ [ExecCall sql, RegenCall sql schema (str_exception e)])
                     (strip_code_fence regen) = Inr df \<longrightarrow>
                   (\<exists>result metrics.
                      fst (run app query_input) = Inr (strip_code_fence regen, result, metrics))))"
proof -
  have r: "run app query_input =
     (case execute_with_regeneration app tr sql of
        (Inl e, tr5) \<Rightarrow> (Inl e, tr5)
      | (Inr (sql', df, exec_time), tr5) \<Rightarrow>
          (Inr (sql', to_string app (head df),
                format_metrics
                  (format_3f app (perf_counter app [IntentCall q, GenCall q]
                                   - perf_counter app [IntentCall q]))
                  (format_3f app exec_time) (length (df_rows df)) (length (df_columns df))
                  (v_validate_syntax (validator app) sql)
                  (v_count_forbidden_tokens (validator app) sql)
                  (v_compute_complexity (validator app) sql)),
           tr5))"
    using q intent gen ddl unfolding sql_def tr_def by (simp add: run_def Let_def)
  show ?thesis
  proof (cases "verify_crew app (tr @ [ExecCall sql]) sql schema (str_exception e)")
    case (Inl e2)
    then show ?thesis
      using first by (simp add: r execute_with_regeneration_def Let_def schema_def tr_def sql_def)
  next
    case (Inr regen)
    then show ?thesis
      using first
      by (cases "execute_sql_query (db_handler app)
                   (tr @ [ExecCall sql, RegenCall sql schema (str_exception e)])
                   (strip_code_fence regen)")
         (simp_all add: r execute_with_regeneration_def Let_def schema_def tr_def sql_def)
  qed
qed


theorem regeneration_exactly_once_witness:
  "snd (run (demo_app ''Valid'' ''SELECT land'' ''OK'' ''SELECT country'') (Some ''countries?''))
     = [IntentCall ''countries?'', GenCall ''countries?'', ValidateCall ''SELECT land'',
        DdlCall ''SELECT land'', ExecCall ''SELECT land'',
        RegenCall ''SELECT land'' ''suppliers (supplier_id, country)''
          ''1054 (42S22): Unknown column'',
        ExecCall ''SELECT country'']
   \<and> fst (run (demo_app ''Valid'' ''SELECT land'' ''OK'' ''SELECT land'') (Some ''countries?''))
     = Inl (MySQLError ''1054 (42S22): Unknown column'')"
  using regeneration_exactly_once[where app = "demo_app ''Valid'' ''SELECT land'' ''OK'' ''SELECT country''"
      and query_input = "Some ''countries?''" and q = "''countries?''" and intent = "''Valid''"
      and raw = "''SELECT land''" and ddl_check = "''OK''"
      and e = "MySQLError ''1054 (42S22): Unknown column''"]
    regeneration_exactly_once[where app = "demo_app ''Valid'' ''SELECT land'' ''OK'' ''SELECT land''"
      and query_input = "Some ''countries?''" and q = "''countries?''" and intent = "''Valid''"
      and raw = "''SELECT land''" and ddl_check = "''OK''"
      and e = "MySQLError ''1054 (42S22): Unknown column''"]
  by (simp add: query_of_def demo_app_def demo_conn_def execute_sql_query_def demo_intent_valid
      demo_fence_land demo_fence_country demo_ddl_ok)

text \<open>
  C10. On a successful run the preview is the rendering of \<open>head\<close> of the data frame, its
  first five rows at most, with all the columns, while the returned metrics text carries
  the lines \<open>Rows Returned:\<close> and \<open>Columns:\<close> with the number of rows and of columns of
  the whole data frame. In the example the result has six rows: the preview shows five
  and the metrics text reads \<open>Rows Returned: 6\<close> and \<open>Columns: 2\<close>.
\<close>

theorem preview_head_metrics_full:
  fixes app :: sqlapp and q raw :: string
  defines "sql \<equiv> strip_code_fence raw"
    and "tr \<equiv> [IntentCall q, GenCall q, ValidateCall (strip_code_fence raw),
                 DdlCall (strip_code_fence raw)]"
  assumes q: "query_of app query_input = Inr q"
    and intent: "intent_crew app [] q = Inr intent" "strip (lower intent) = ''valid''"
    and gen: "gen_crew app [IntentCall q] q = Inr raw"
    and ddl: "ddl_crew app [IntentCall q, GenCall q, ValidateCall sql] sql = Inr ddl_check"
      "\<not> startswith (lower ddl_check) ''error''"
    and ex: "execute_with_regeneration app tr sql = (Inr (sql', df, exec_time), tr')"
  shows "fst (run app query_input)
           = Inr (sql', to_string app (head df),
                  ''Generation Time: ''
                    @ format_3f app (perf_counter app [IntentCall q, GenCall q]
                                      - perf_counter app [IntentCall q]) @ ''s'' @ [CHR 0x0A]
                  @ ''Execution Time: '' @ format_3f app exec_time @ ''s'' @ [CHR 0x0A]
                  @ ''Rows Returned: '' @ str_nat (length (df_rows df)) @ [CHR 0x0A]
                  @ ''Columns: '' @ str_nat (length (df_columns df)) @ [CHR 0x0A]
                  @ ''Syntax Valid: '' @ str_bool (v_validate_syntax (validator app) sql)
                  @ [CHR 0x0A]
                  @ ''Forbidden Tokens: ''
                  @ str_nat (v_count_forbidden_tokens (validator app) sql) @ [CHR 0x0A]
                  @ ''Query Complexity: '' @ str_nat (v_compute_complexity (validator app) sql))
     \<and> df_rows (head df) = take 5 (df_rows df)
     \<and> length (df_rows (head df)) = min 5 (length (df_rows df))
     \<and> df_columns (head df) = df_columns df"
  using q intent gen ddl ex unfolding sql_def tr_def
  by (simp add: run_def Let_def head_def min_def format_metrics_def)

theorem preview_head_metrics_full_witness:
  "fst (run (demo_app ''Valid'' ''SELECT country'' ''OK'' []) (Some ''countries?''))
     = Inr (''SELECT country'', ''5 rows'',
            ''Generation Time: 0.000s'' @ [CHR 0x0A]
            @ ''Execution Time: 0.000s'' @ [CHR 0x0A]
            @ ''Rows Returned: 6'' @ [CHR 0x0A]
            @ ''Columns: 2'' @ [CHR 0x0A]
            @ ''Syntax Valid: True'' @ [CHR 0x0A]
            @ ''Forbidden Tokens: 0'' @ [CHR 0x0A]
            @ ''Query Complexity: 0'')
   \<and> length (df_rows (head (DataFrame demo_rows))) = 5
   \<and> length (df_rows (DataFrame demo_rows)) = 6"
  using preview_head_metrics_full[where app = "demo_app ''Valid'' ''SELECT country'' ''OK'' []"
      and query_input = "Some ''countries?''" and q = "''countries?''" and intent = "''Valid''"
      and raw = "''SELECT country''" and ddl_check = "''OK''" and sql' = "''SELECT country''"
      and df = "DataFrame demo_rows" and exec_time = 1
      and tr' = "[IntentCall ''countries?'', GenCall ''countries?'',
                  ValidateCall ''SELECT country'', DdlCall ''SELECT country'',
                  ExecCall ''SELECT country'']"]
  by (simp add: query_of_def demo_app_def demo_conn_def execute_sql_query_def demo_intent_valid
      demo_fence_country demo_ddl_ok execute_with_regeneration_def Let_def
      Validator_def validate_syntax_def demo_forbidden_0 demo_complexity_0 demo_str_nat_5
      demo_str_nat_6 demo_str_nat_2 demo_str_nat_0 str_bool_def
      DataFrame_def demo_rows_def head_def eval_nat_numeral)

section \<open>Code-fence stripping: what the two substitutions do\<close>

text \<open>
  The scan, unfolded once: a place where the pattern does not match is passed over, a
  non-empty match is consumed.
\<close>

lemma re_scan_nomatch_Nil: "ends ic r p [] = [] \<Longrightarrow> re_scan ic r False p [] = []"
  by (subst re_scan.simps) simp

lemma re_scan_nomatch_Cons:
  "ends ic r p (c # cs) = [] \<Longrightarrow> re_scan ic r False p (c # cs) = Inl c # re_scan ic r False (Some c) cs"
  by (subst re_scan.simps) simp

lemma re_scan_match:
  "ends ic r p s = n # ns \<Longrightarrow> n \<noteq> 0 \<Longrightarrow>
   re_scan ic r False p s = Inr (take n s) # re_scan ic r False (prev_at p s n) (drop n s)"
  by (subst re_scan.simps) simp

definition sub_from :: "regex \<Rightarrow> char option \<Rightarrow> string \<Rightarrow> string" where
  "sub_from r p s =
     concat (map (\<lambda>x. case x of Inl c \<Rightarrow> [c] | Inr m \<Rightarrow> []) (re_scan False r False p s))"

lemma sub_sub_from: "sub r [] s = sub_from r None s"
  by (simp add: sub_def sub_from_def)

lemma isspace_backtick: "\<not> isspace (CHR 0x60)"
  by (simp add: isspace_def)

definition closes :: "string \<Rightarrow> bool" where
  "closes u = (let v = dropWhile isspace u
               in take 3 v = fence \<and> (drop 3 v = [] \<or> drop 3 v = [CHR 0x0A]))"

lemma length_fence: "length fence = 3"
  by (simp add: fence_def)

lemma ends_fence_Eol:
  "ends False (Seq (Lit fence) Eol) p v =
     (if take 3 v = fence \<and> (drop 3 v = [] \<or> drop 3 v = [CHR 0x0A]) then [3] else [])"
  by (simp add: fold_case_def length_fence)

lemma ends_Seq_StarSpace:
  assumes "\<And>n. n < length (takeWhile isspace u) \<Longrightarrow> ends ic X (prev_at p u n) (drop n u) = []"
  shows "ends ic (Seq StarSpace X) p u =
           map ((+) (length (takeWhile isspace u)))
             (ends ic X (prev_at p u (length (takeWhile isspace u))) (dropWhile isspace u))"
proof -
  let ?k = "length (takeWhile isspace u)"
  let ?f = "\<lambda>n. map ((+) n) (ends ic X (prev_at p u n) (drop n u))"
  have "concat (map ?f (rev [0..<?k])) = []"
    using assms by (induction ?k) auto
  moreover have "drop ?k u = dropWhile isspace u"
    by (metis append_eq_conv_conj takeWhile_dropWhile_id)
  ultimately show ?thesis by simp
qed

lemma isspace_before_run: "n < length (takeWhile isspace u) \<Longrightarrow> isspace (hd (drop n u)) \<and> drop n u \<noteq> []"
proof -
  assume a: "n < length (takeWhile isspace u)"
  then have "isspace (u ! n)"
    by (metis nth_mem set_takeWhileD takeWhile_nth)
  moreover from a have "n < length u"
    using length_takeWhile_le[of isspace u] by simp
  ultimately show ?thesis by (simp add: hd_drop_conv_nth)
qed

lemma ends_fence_close:
  "ends False fence_close_pattern p u =
     (if closes u then [length (takeWhile isspace u) + 3] else [])"
proof -
  have "ends False (Seq (Lit fence) Eol) (prev_at p u n) (drop n u) = []"
    if "n < length (takeWhile isspace u)" for n
  proof -
    from isspace_before_run[OF that] obtain c cs where "drop n u = c # cs" "isspace c"
      by (cases "drop n u") auto
    then show ?thesis
      using isspace_backtick by (auto simp: fence_def fold_case_def)
  qed
  then show ?thesis
    unfolding fence_close_pattern_def
    by (subst ends_Seq_StarSpace) (simp_all add: ends_fence_Eol closes_def Let_def del: ends.simps)
qed


definition no_lead :: "string \<Rightarrow> bool" where
  "no_lead u = (u = [] \<or> \<not> isspace (hd u))"

definition no_trail :: "string \<Rightarrow> bool" where
  "no_trail u = (u = [] \<or> \<not> isspace (last u))"

lemma lstrip_id: "no_lead u \<Longrightarrow> lstrip u = u"
  by (cases u) (auto simp: lstrip_def no_lead_def)

lemma rstrip_id: "no_trail u \<Longrightarrow> rstrip u = u"
  by (cases u rule: rev_cases) (auto simp: rstrip_def no_trail_def)

lemma strip_id: "no_lead u \<Longrightarrow> no_trail u \<Longrightarrow> strip u = u"
  by (simp add: strip_def lstrip_id rstrip_id)

lemma no_lead_prefix: "no_lead u \<Longrightarrow> prefix v u \<Longrightarrow> no_lead v"
  by (cases v) (auto simp: no_lead_def prefix_def)

lemma no_trail_suffix: "no_trail u \<Longrightarrow> suffix v u \<Longrightarrow> no_trail v"
  by (cases v rule: rev_cases) (auto simp: no_trail_def suffix_def)

lemma rstrip_prefix: "prefix (rstrip z) z"
proof -
  have "suffix (dropWhile isspace (rev z)) (rev z)"
    by (rule suffix_dropWhile)
  then show ?thesis by (simp add: rstrip_def suffix_to_prefix)
qed

lemma no_lead_dropWhile: "no_lead (dropWhile isspace x)"
  using hd_dropWhile[of isspace x] by (auto simp: no_lead_def)

lemma no_lead_strip: "no_lead (strip x)"
proof -
  have "no_lead (lstrip x)"
    by (simp add: lstrip_def no_lead_dropWhile)
  then show ?thesis
    unfolding strip_def by (rule no_lead_prefix) (rule rstrip_prefix)
qed

lemma no_trail_strip: "no_trail (strip x)"
  using hd_dropWhile[of isspace "rev (lstrip x)"]
  by (auto simp: strip_def rstrip_def no_trail_def last_rev)


lemma not_closes_Nil: "\<not> closes []"
  by (simp add: closes_def fence_def)

lemma not_closes_newline: "\<not> closes [CHR 0x0A]"
  by (simp add: closes_def fence_def isspace_def)

lemma isspace_newline: "isspace (CHR 0x0A)"
  by (simp add: isspace_def)

lemma sub_from_close_Nil: "sub_from fence_close_pattern p [] = []"
  by (simp add: sub_from_def re_scan_nomatch_Nil ends_fence_close not_closes_Nil)

lemma sub_from_close_newline: "sub_from fence_close_pattern p [CHR 0x0A] = [CHR 0x0A]"
  by (simp add: sub_from_def re_scan_nomatch_Cons re_scan_nomatch_Nil ends_fence_close
      not_closes_Nil not_closes_newline)

lemma sub_from_close_skip:
  "\<not> closes (c # cs) \<Longrightarrow>
   sub_from fence_close_pattern p (c # cs) = c # sub_from fence_close_pattern (Some c) cs"
  by (simp add: sub_from_def re_scan_nomatch_Cons ends_fence_close)

lemma sub_from_close_match:
  assumes "closes u"
  shows "sub_from fence_close_pattern p u = drop 3 (dropWhile isspace u)"
proof -
  let ?k = "length (takeWhile isspace u)"
  have d: "drop (?k + 3) u = drop 3 (dropWhile isspace u)"
    by (metis add.commute append_eq_conv_conj drop_drop takeWhile_dropWhile_id)
  from assms have e: "drop 3 (dropWhile isspace u) = [] \<or> drop 3 (dropWhile isspace u) = [CHR 0x0A]"
    by (simp add: closes_def Let_def)
  have "re_scan False fence_close_pattern False p u =
          Inr (take (?k + 3) u)
            # re_scan False fence_close_pattern False (prev_at p u (?k + 3)) (drop (?k + 3) u)"
    by (rule re_scan_match[where ns = "[]"]) (simp_all add: ends_fence_close assms)
  then have "sub_from fence_close_pattern p u =
          sub_from fence_close_pattern (prev_at p u (?k + 3)) (drop 3 (dropWhile isspace u))"
    by (simp add: sub_from_def d)
  with e show ?thesis
    by (auto simp: sub_from_close_Nil sub_from_close_newline)
qed

lemma closes_space: "isspace c \<Longrightarrow> closes cs \<Longrightarrow> closes (c # cs)"
  by (simp add: closes_def)

lemma closes_suffix:
  assumes "closes v" "no_trail v"
  shows "suffix fence v \<and> sub_from fence_close_pattern p v = []"
proof -
  let ?w = "dropWhile isspace v"
  from assms(1) have t: "take 3 ?w = fence"
    and e: "drop 3 ?w = [] \<or> drop 3 ?w = [CHR 0x0A]"
    by (simp_all add: closes_def Let_def)
  have w: "?w = fence @ drop 3 ?w"
    using t by (metis append_take_drop_id)
  have v: "v = takeWhile isspace v @ ?w" by simp
  have "drop 3 ?w \<noteq> [CHR 0x0A]"
  proof
    assume n: "drop 3 ?w = [CHR 0x0A]"
    with w have "?w = fence @ [CHR 0x0A]" by simp
    with v have "v = (takeWhile isspace v @ fence) @ [CHR 0x0A]" by simp
    then have "last v = CHR 0x0A" and "v \<noteq> []"
      by (metis last_snoc, metis snoc_eq_iff_butlast)
    with assms(2) show False by (simp add: no_trail_def isspace_newline)
  qed
  with e have d: "drop 3 ?w = []" by simp
  with w have "?w = fence" by simp
  with v have "suffix fence v" by (metis suffixI)
  with d show ?thesis by (simp add: sub_from_close_match[OF assms(1)])
qed

lemma sub_from_close_trimmed:
  "no_trail u \<Longrightarrow>
   no_trail (sub_from fence_close_pattern p u) \<and> prefix (sub_from fence_close_pattern p u) u"
proof (induction u arbitrary: p)
  case Nil
  show ?case by (simp add: sub_from_close_Nil no_trail_def)
next
  case (Cons c cs)
  show ?case
  proof (cases "closes (c # cs)")
    case True
    with Cons.prems show ?thesis
      by (simp add: closes_suffix no_trail_def)
  next
    case False
    have tcs: "no_trail cs"
      using Cons.prems by (rule no_trail_suffix) (simp add: suffix_Cons)
    note IH = Cons.IH[OF tcs, of "Some c"]
    have r: "sub_from fence_close_pattern p (c # cs) = c # sub_from fence_close_pattern (Some c) cs"
      using False by (rule sub_from_close_skip)
    have "no_trail (c # sub_from fence_close_pattern (Some c) cs)"
    proof (cases "sub_from fence_close_pattern (Some c) cs = []")
      case nonempty: False
      with IH show ?thesis by (simp add: no_trail_def)
    next
      case empty: True
      show ?thesis
      proof (cases "cs = []")
        case True
        with Cons.prems empty show ?thesis by (simp add: no_trail_def)
      next
        case cs: False
        have "closes cs"
        proof (rule ccontr)
          assume "\<not> closes cs"
          with cs obtain d ds where "cs = d # ds" "\<not> closes (d # ds)"
            by (cases cs) auto
          then have "sub_from fence_close_pattern (Some c) cs \<noteq> []"
            by (simp add: sub_from_close_skip)
          with empty show False by simp
        qed
        with False have "\<not> isspace c"
          using closes_space by blast
        with empty show ?thesis by (simp add: no_trail_def)
      qed
    qed
    with IH r show ?thesis by simp
  qed
qed

lemma sub_from_close_id:
  "no_trail u \<Longrightarrow> \<not> suffix fence u \<Longrightarrow> sub_from fence_close_pattern p u = u"
proof (induction u arbitrary: p)
  case Nil
  show ?case by (simp add: sub_from_close_Nil)
next
  case (Cons c cs)
  have "\<not> closes (c # cs)"
    using Cons.prems closes_suffix by blast
  moreover have "no_trail cs"
    using Cons.prems(1) by (rule no_trail_suffix) (simp add: suffix_Cons)
  moreover have "\<not> suffix fence cs"
    using Cons.prems(2) by (simp add: suffix_Cons)
  ultimately show ?case
    by (simp add: sub_from_close_skip Cons.IH)
qed

lemma ends_open_later: "ends False fence_open_pattern (Some c) s = []"
  by (simp add: fence_open_pattern_def)

lemma re_scan_open_later: "re_scan False fence_open_pattern False (Some c) s = map Inl s"
  by (induction s arbitrary: c)
     (simp_all add: re_scan_nomatch_Nil re_scan_nomatch_Cons ends_open_later del: ends.simps)

lemma sub_from_open_later: "sub_from fence_open_pattern (Some c) s = s"
  by (simp add: sub_from_def re_scan_open_later comp_def)

definition after_open :: "string \<Rightarrow> string" where
  "after_open s =
     (let r = drop 3 s; r' = (if startswith r ''sql'' then drop 3 r else r)
      in dropWhile isspace r')"

lemma hd_rev_upt_Suc: "rev [0..<Suc k] = k # rev [0..<k]"
  by simp

lemma ends_open_fence:
  assumes "startswith s fence"
  shows "\<exists>ns. ends False fence_open_pattern None s = (length s - length (after_open s)) # ns
     \<and> drop (length s - length (after_open s)) s = after_open s
     \<and> length s - length (after_open s) \<noteq> 0"
proof -
  let ?r = "drop 3 s"
  let ?j = "if startswith ?r ''sql'' then 3 else 0 :: nat"
  let ?r' = "drop ?j ?r"
  let ?k = "length (takeWhile isspace ?r')"
  have a: "after_open s = drop ?k ?r'"
    by (simp add: after_open_def Let_def dropWhile_eq_drop)
  have ks: "?k \<le> length ?r'" by (rule length_takeWhile_le)
  have js: "?j \<le> length ?r"
    by (auto simp: startswith_def dest!: arg_cong[where f = length])
  from assms have s3: "3 \<le> length s" and t3: "take 3 s = fence"
    by (auto simp: startswith_def length_fence dest!: arg_cong[where f = length])
  have len: "length s - length (after_open s) = 3 + ?j + ?k"
    using ks js s3 by (simp add: a)
  have d: "drop (3 + ?j + ?k) s = after_open s"
    by (simp add: a add.commute)
  have e: "\<exists>ns. ends False fence_open_pattern None s = (3 + ?j + ?k) # ns"
    using t3
    by (simp add: fence_open_pattern_def fold_case_def length_fence startswith_def prev_at_def
        del: upt_Suc add: hd_rev_upt_Suc)
  from e len d show ?thesis by auto
qed

lemma sub_from_open:
  "sub_from fence_open_pattern None s = (if startswith s fence then after_open s else s)"
proof (cases "startswith s fence")
  case True
  from ends_open_fence[OF True] obtain ns where
    e: "ends False fence_open_pattern None s = (length s - length (after_open s)) # ns"
    and d: "drop (length s - length (after_open s)) s = after_open s"
    and n: "length s - length (after_open s) \<noteq> 0"
    by blast
  have "re_scan False fence_open_pattern False None s =
          Inr (take (length s - length (after_open s)) s)
            # re_scan False fence_open_pattern False
                (prev_at None s (length s - length (after_open s)))
                (drop (length s - length (after_open s)) s)"
    using e n by (rule re_scan_match)
  with n d True show ?thesis
    by (simp add: sub_from_def prev_at_def re_scan_open_later comp_def)
next
  case False
  then have "ends False fence_open_pattern None s = []"
    by (simp add: fence_open_pattern_def startswith_def fold_case_def)
  with False show ?thesis
    by (cases s)
       (simp_all add: sub_from_def re_scan_nomatch_Nil re_scan_nomatch_Cons re_scan_open_later
          comp_def del: ends.simps)
qed

lemma strip_code_fence_sub_from:
  "strip_code_fence raw =
     sub_from fence_close_pattern None (sub_from fence_open_pattern None (strip raw))"
  by (simp add: strip_code_fence_def Let_def sub_sub_from)

lemma after_open_trimmed: "no_trail s \<Longrightarrow> no_lead (after_open s) \<and> no_trail (after_open s)"
proof -
  assume t: "no_trail s"
  have "suffix (after_open s) s"
    unfolding after_open_def Let_def
    by (auto intro: suffix_dropWhile suffix_drop suffix_order.trans)
  with t have "no_trail (after_open s)" by (rule no_trail_suffix)
  moreover have "no_lead (after_open s)"
    by (simp add: after_open_def Let_def no_lead_dropWhile)
  ultimately show ?thesis by simp
qed

lemma strip_code_fence_trimmed:
  "no_lead (strip_code_fence raw) \<and> no_trail (strip_code_fence raw)"
proof -
  let ?y1 = "sub_from fence_open_pattern None (strip raw)"
  have y1: "no_lead ?y1 \<and> no_trail ?y1"
    by (simp add: sub_from_open after_open_trimmed no_lead_strip no_trail_strip)
  from y1 sub_from_close_trimmed[of ?y1 None]
  have "no_trail (sub_from fence_close_pattern None ?y1)"
    and "prefix (sub_from fence_close_pattern None ?y1) ?y1"
    by simp_all
  with y1 show ?thesis
    by (auto simp: strip_code_fence_sub_from intro: no_lead_prefix)
qed

definition endswith :: "string \<Rightarrow> string \<Rightarrow> bool" where
  "endswith s w = (length w \<le> length s \<and> drop (length s - length w) s = w)"

lemma endswith_suffix: "endswith s w = suffix w s"
  by (auto simp: endswith_def suffix_def) (metis append_take_drop_id)

lemma strip_code_fence_clean:
  assumes "no_lead y" "no_trail y" "\<not> startswith y fence" "\<not> endswith y fence"
  shows "strip_code_fence y = y"
  using assms
  by (simp add: strip_code_fence_sub_from strip_id sub_from_open sub_from_close_id endswith_suffix)

lemma demo_fenced:
  "strip_code_fence (fence @ ''sql'' @ [CHR 0x0A] @ ''SELECT 1'' @ [CHR 0x0A] @ fence) = ''SELECT 1''"
  by code_simp

text \<open>
  C9, as the code has it. The stripping removes one opening and one closing fence, so its
  output can still begin or end with a fence when the input carries two. Whenever the
  output neither begins nor ends with a fence, stripping it again returns it unchanged
  (the output never has leading or trailing whitespace).
\<close>

theorem strip_code_fence_idempotent_on_single_fence:
  assumes "\<not> startswith (strip_code_fence raw) fence"
    and "\<not> endswith (strip_code_fence raw) fence"
  shows "strip_code_fence (strip_code_fence raw) = strip_code_fence raw"
  using assms strip_code_fence_trimmed[of raw] by (simp add: strip_code_fence_clean)

text \<open>
  With two opening fences the first stripping leaves one fence, which the second removes.
\<close>

theorem strip_code_fence_not_idempotent:
  "strip_code_fence (strip_code_fence (fence @ fence @ ''a''))
     \<noteq> strip_code_fence (fence @ fence @ ''a'')"
  by code_simp

theorem strip_code_fence_idempotent_witness:
  "strip_code_fence
     (strip_code_fence (fence @ ''sql'' @ [CHR 0x0A] @ ''SELECT 1'' @ [CHR 0x0A] @ fence))
     = strip_code_fence (fence @ ''sql'' @ [CHR 0x0A] @ ''SELECT 1'' @ [CHR 0x0A] @ fence)
   \<and> strip_code_fence (fence @ ''sql'' @ [CHR 0x0A] @ ''SELECT 1'' @ [CHR 0x0A] @ fence)
     = ''SELECT 1''"
proof -
  let ?raw = "fence @ ''sql'' @ [CHR 0x0A] @ ''SELECT 1'' @ [CHR 0x0A] @ fence"
  have e: "strip_code_fence ?raw = ''SELECT 1''" by (rule demo_fenced)
  have h1: "\<not> startswith (strip_code_fence ?raw) fence"
    unfolding e by (simp add: startswith_def fence_def)
  have h2: "\<not> endswith (strip_code_fence ?raw) fence"
    unfolding e by (simp add: endswith_def fence_def)
  from strip_code_fence_idempotent_on_single_fence[OF h1 h2] e show ?thesis by blast
qed

lemma is_word_lower_char: "is_word (lower_char c) = is_word c"
  unfolding is_word_def lower_char_def Let_def
  by (auto simp: Let_def)

definition plain_word :: "string \<Rightarrow> bool" where
  "plain_word w = (w \<noteq> [] \<and> list_all is_word w)"

lemma ends_alts:
  "toks \<noteq> [] \<Longrightarrow> ends ic (alts (map Lit toks)) p u = concat (map (\<lambda>w. ends ic (Lit w) p u) toks)"
proof (induction toks)
  case Nil
  then show ?case by simp
next
  case (Cons w ws)
  then show ?case by (cases ws) (simp_all del: ends.simps(1))
qed

definition here :: "string list \<Rightarrow> char option \<Rightarrow> string \<Rightarrow> bool" where
  "here toks p u =
     list_ex (\<lambda>w. lower (take (length w) u) = lower w \<and> \<not> word_before p
                  \<and> \<not> word_after (drop (length w) u)) toks"

lemma lower_match_word:
  assumes "lower (take (length w) u) = lower w" "plain_word w"
  shows "length w \<le> length u" and "\<And>j. j < length w \<Longrightarrow> is_word (u ! j)"
proof -
  from assms(1) have "length (take (length w) u) = length w"
    by (metis length_map lower_def)
  then show le: "length w \<le> length u" by simp
  fix j assume j: "j < length w"
  with le assms(1) have "lower_char (u ! j) = lower_char (w ! j)"
    by (metis (no_types, lifting) length_map lower_def nth_map nth_take order_less_le_trans)
  moreover from assms(2) j have "is_word (w ! j)"
    by (simp add: plain_word_def list_all_length)
  ultimately show "is_word (u ! j)"
    by (metis is_word_lower_char)
qed

lemma ends_token_boundary:
  assumes "plain_word w"
  shows "concat (map (\<lambda>n. map ((+) n) (ends True WordB (prev_at p u n) (drop n u)))
                    (ends True (Lit w) p u))
         = (if lower (take (length w) u) = lower w \<and> \<not> word_after (drop (length w) u)
            then [length w] else [])"
proof (cases "lower (take (length w) u) = lower w")
  case False
  then show ?thesis by (simp add: fold_case_def)
next
  case True
  from assms have n: "length w \<noteq> 0" by (simp add: plain_word_def)
  then have "is_word (u ! (length w - 1))"
    using lower_match_word(2)[OF True assms, of "length w - 1"] by simp
  with n have "word_before (prev_at p u (length w))"
    by (simp add: prev_at_def word_before_def)
  with True show ?thesis by (simp add: fold_case_def)
qed

lemma ends_tokens_boundary:
  assumes "list_all plain_word toks"
  shows "concat (map (\<lambda>n. map ((+) n) (ends True WordB (prev_at p u n) (drop n u)))
                    (concat (map (\<lambda>w. ends True (Lit w) p u) toks)))
         = map length (filter (\<lambda>w. lower (take (length w) u) = lower w
                                     \<and> \<not> word_after (drop (length w) u)) toks)"
  using assms
proof (induction toks)
  case Nil
  show ?case by simp
next
  case (Cons w ws)
  then have w: "plain_word w" and ws: "list_all plain_word ws" by simp_all
  show ?case
    using ends_token_boundary[OF w, of p u] Cons.IH[OF ws]
    by (simp del: ends.simps)
qed

lemma ends_Seq_WordB:
  "ends ic (Seq WordB X) p u = (if word_before p \<noteq> word_after u then ends ic X p u else [])"
proof -
  have "map ((+) 0) xs = xs" for xs :: "nat list"
    by (induction xs) auto
  then show ?thesis by (simp add: prev_at_def)
qed

lemma ends_forbidden:
  assumes "toks \<noteq> []" "list_all plain_word toks"
  shows "ends True (forbidden_pattern toks) p u
         = map length (filter (\<lambda>w. lower (take (length w) u) = lower w \<and> \<not> word_before p
                                     \<and> \<not> word_after (drop (length w) u)) toks)"
proof -
  let ?X = "Seq (alts (map Lit toks)) WordB"
  have X: "ends True ?X q u
         = map length (filter (\<lambda>w. lower (take (length w) u) = lower w
                                     \<and> \<not> word_after (drop (length w) u)) toks)" for q
    using ends_tokens_boundary[OF assms(2), of q u] ends_alts[OF assms(1), of True q u]
    by (simp del: ends.simps(1,3))
  have first: "word_after u"
    if "w \<in> set toks" "lower (take (length w) u) = lower w" for w
  proof -
    from that(1) assms(2) have pw: "plain_word w" by (simp add: list_all_iff)
    then have "0 < length w" by (simp add: plain_word_def)
    from lower_match_word[OF that(2) pw] this have "u \<noteq> []" "is_word (u ! 0)" by auto
    then show ?thesis by (cases u) (simp_all add: word_after_def)
  qed
  have E: "ends True (forbidden_pattern toks) p u
           = (if word_before p \<noteq> word_after u
              then map length (filter (\<lambda>w. lower (take (length w) u) = lower w
                                     \<and> \<not> word_after (drop (length w) u)) toks)
              else [])"
    unfolding forbidden_pattern_def ends_Seq_WordB X ..
  show ?thesis
  proof (cases "word_after u")
    case True
    then show ?thesis by (simp add: E)
  next
    case False
    with first have "filter (\<lambda>w. lower (take (length w) u) = lower w
                                   \<and> \<not> word_after (drop (length w) u)) toks = []"
      by (auto simp: filter_empty_conv)
    moreover from False first
    have "filter (\<lambda>w. lower (take (length w) u) = lower w \<and> \<not> word_before p
                                   \<and> \<not> word_after (drop (length w) u)) toks = []"
      by (auto simp: filter_empty_conv)
    ultimately show ?thesis by (simp add: E)
  qed
qed

definition occ :: "string list \<Rightarrow> char option \<Rightarrow> string \<Rightarrow> nat" where
  "occ toks p u = length (filter (\<lambda>j. here toks (prev_at p u j) (drop j u)) [0..<length u])"

lemma prev_at_drop: "n \<le> length u \<Longrightarrow> prev_at (prev_at p u n) (drop n u) j = prev_at p u (n + j)"
  by (auto simp: prev_at_def)

lemma occ_drop:
  assumes "n \<le> length u"
  shows "occ toks p u
         = length (filter (\<lambda>j. here toks (prev_at p u j) (drop j u)) [0..<n])
           + occ toks (prev_at p u n) (drop n u)"
proof -
  have "[0..<n + (length u - n)] = [0..<n] @ [n..<n + (length u - n)]"
    by (rule upt_add_eq_append) simp
  with assms have a: "[0..<length u] = [0..<n] @ [n..<length u]" by simp
  have b: "[n..<length u] = map (\<lambda>i. i + n) [0..<length u - n]"
    using assms by (simp add: map_add_upt)
  have c: "filter (\<lambda>j. here toks (prev_at p u j) (drop j u)) (map (\<lambda>i. i + n) xs)
           = map (\<lambda>i. i + n)
               (filter (\<lambda>j. here toks (prev_at (prev_at p u n) (drop n u) j) (drop j (drop n u))) xs)"
    for xs
    using assms by (induction xs) (simp_all add: prev_at_drop add.commute)
  show ?thesis
    unfolding occ_def a b by (simp add: c)
qed

lemma here_iff: 
  "here toks p u \<longleftrightarrow> (\<exists>w\<in>set toks. lower (take (length w) u) = lower w \<and> \<not> word_before p
                  \<and> \<not> word_after (drop (length w) u))"
  by (simp add: here_def list_ex_iff)

lemma ends_forbidden_Nil:
  assumes "toks \<noteq> []" "list_all plain_word toks"
  shows "ends True (forbidden_pattern toks) p u = [] \<longleftrightarrow> \<not> here toks p u"
  by (auto simp: ends_forbidden[OF assms] here_iff filter_empty_conv)

lemma ends_forbidden_Cons:
  assumes "toks \<noteq> []" "list_all plain_word toks"
    and "ends True (forbidden_pattern toks) p u = n # ns"
  shows "here toks p u \<and> 0 < n \<and> n \<le> length u \<and> (\<forall>j < n. is_word (u ! j))"
proof -
  from assms(3) have "n \<in> set (ends True (forbidden_pattern toks) p u)" by simp
  then obtain w where w: "w \<in> set toks" "n = length w" "lower (take (length w) u) = lower w"
    "\<not> word_before p" "\<not> word_after (drop (length w) u)"
    by (auto simp: ends_forbidden[OF assms(1,2)])
  from w(1) assms(2) have pw: "plain_word w" by (simp add: list_all_iff)
  from w have "here toks p u" by (auto simp: here_iff)
  moreover from pw w(2) have "0 < n" by (simp add: plain_word_def)
  moreover note lower_match_word[OF w(3) pw]
  ultimately show ?thesis using w(2) by simp
qed

lemma here_not_inside: "0 < j \<Longrightarrow> is_word (u ! (j - 1)) \<Longrightarrow> \<not> here toks (prev_at p u j) (drop j u)"
  by (simp add: here_iff prev_at_def word_before_def)

lemma count_forbidden_from:
  assumes "toks \<noteq> []" "list_all plain_word toks"
  shows "length [m. Inr m \<leftarrow> re_scan True (forbidden_pattern toks) False p u] = occ toks p u"
proof (induction "length u" arbitrary: p u rule: less_induct)
  case less
  show ?case
  proof (cases "ends True (forbidden_pattern toks) p u")
    case Nil
    with ends_forbidden_Nil[OF assms] have nh: "\<not> here toks p u" by simp
    show ?thesis
    proof (cases u)
      case u: Nil
      with Nil show ?thesis by (simp add: re_scan_nomatch_Nil occ_def)
    next
      case u: (Cons c cs)
      have "occ toks p u = occ toks (Some c) cs"
        using occ_drop[of 1 u toks p] nh u by (simp add: prev_at_def)
      moreover have "length [m. Inr m \<leftarrow> re_scan True (forbidden_pattern toks) False (Some c) cs]
                     = occ toks (Some c) cs"
        using less[of cs "Some c"] u by simp
      ultimately show ?thesis
        using Nil u by (simp add: re_scan_nomatch_Cons)
    qed
  next
    case (Cons n ns)
    from ends_forbidden_Cons[OF assms Cons]
    have h: "here toks p u" and n: "0 < n" "n \<le> length u" and w: "\<forall>j < n. is_word (u ! j)"
      by simp_all
    have "filter (\<lambda>j. here toks (prev_at p u j) (drop j u)) [0..<n] = [0]"
    proof -
      have "[0..<n] = 0 # [1..<n]" using n(1) by (simp add: upt_conv_Cons)
      moreover have "filter (\<lambda>j. here toks (prev_at p u j) (drop j u)) [1..<n] = []"
      proof -
        have "\<not> here toks (prev_at p u j) (drop j u)" if "j \<in> set [1..<n]" for j
        proof (rule here_not_inside)
          from that show "0 < j" by simp
          from that have "j - 1 < n" by auto
          with w show "is_word (u ! (j - 1))" by blast
        qed
        then show ?thesis by (simp only: filter_empty_conv) blast
      qed
      ultimately show ?thesis using h by (simp add: prev_at_def)
    qed
    then have "occ toks p u = 1 + occ toks (prev_at p u n) (drop n u)"
      using occ_drop[OF n(2), of toks p] by simp
    moreover have "length [m. Inr m \<leftarrow> re_scan True (forbidden_pattern toks) False
                                        (prev_at p u n) (drop n u)]
                   = occ toks (prev_at p u n) (drop n u)"
      using less[of "drop n u" "prev_at p u n"] n by simp
    moreover have "re_scan True (forbidden_pattern toks) False p u
                   = Inr (take n u) # re_scan True (forbidden_pattern toks) False
                                        (prev_at p u n) (drop n u)"
      using Cons n(1) by (intro re_scan_match) simp_all
    ultimately show ?thesis by simp
  qed
qed

text \<open>
  The count the specification describes: the positions of the string at which one of the
  tokens stands, compared without regard to letter case, with no word character directly
  before it and none directly after it.
\<close>

definition whole_word_at :: "string \<Rightarrow> string \<Rightarrow> nat \<Rightarrow> bool" where
  "whole_word_at w s i =
     (i + length w \<le> length s
      \<and> lower (take (length w) (drop i s)) = lower w
      \<and> \<not> (0 < i \<and> is_word (s ! (i - 1)))
      \<and> \<not> (i + length w < length s \<and> is_word (s ! (i + length w))))"

definition whole_word_occurrences :: "string list \<Rightarrow> string \<Rightarrow> nat" where
  "whole_word_occurrences toks s =
     length (filter (\<lambda>i. list_ex (\<lambda>w. whole_word_at w s i) toks) [0..<length s])"

lemma word_after_drop: "word_after (drop k s) = (k < length s \<and> is_word (s ! k))"
  by (cases "k < length s") (simp_all add: word_after_def Cons_nth_drop_Suc[symmetric])

lemma whole_word_at_here:
  assumes "i \<le> length s"
  shows "list_ex (\<lambda>w. whole_word_at w s i) toks = here toks (prev_at None s i) (drop i s)"
proof -
  have "whole_word_at w s i
        = (lower (take (length w) (drop i s)) = lower w \<and> \<not> word_before (prev_at None s i)
           \<and> \<not> word_after (drop (length w) (drop i s)))" for w
  proof -
    have "i + length w \<le> length s" if "lower (take (length w) (drop i s)) = lower w"
    proof -
      from that have "length (take (length w) (drop i s)) = length w"
        by (metis length_map lower_def)
      with assms show ?thesis by auto
    qed
    then show ?thesis
      by (auto simp: whole_word_at_def word_after_drop prev_at_def word_before_def add.commute)
  qed
  then show ?thesis by (simp add: here_def)
qed

lemma plain_FORBIDDEN_TOKENS: "FORBIDDEN_TOKENS \<noteq> [] \<and> list_all plain_word FORBIDDEN_TOKENS"
  by (simp add: FORBIDDEN_TOKENS_def plain_word_def is_word_def)

text \<open>
  C6. \<open>count_forbidden_tokens\<close> with the configured tokens returns the number of
  case-insensitive whole-word occurrences of the tokens in the string; in particular it
  is at least 1 as soon as one token occurs as a whole word, in any letter case.
\<close>

theorem count_forbidden_tokens_counts_whole_words:
  "count_forbidden_tokens FORBIDDEN_TOKENS sql = whole_word_occurrences FORBIDDEN_TOKENS sql
   \<and> (\<forall>w i. w \<in> set FORBIDDEN_TOKENS \<and> i < length sql \<and> whole_word_at w sql i \<longrightarrow>
         1 \<le> count_forbidden_tokens FORBIDDEN_TOKENS sql)"
proof -
  have "filter (\<lambda>i. list_ex (\<lambda>w. whole_word_at w sql i) FORBIDDEN_TOKENS) [0..<length sql]
        = filter (\<lambda>i. here FORBIDDEN_TOKENS (prev_at None sql i) (drop i sql)) [0..<length sql]"
    by (rule filter_cong) (simp_all add: whole_word_at_here)
  then have eq: "count_forbidden_tokens FORBIDDEN_TOKENS sql
                   = whole_word_occurrences FORBIDDEN_TOKENS sql"
    using plain_FORBIDDEN_TOKENS
    by (simp add: count_forbidden_tokens_def findall_def count_forbidden_from occ_def
        whole_word_occurrences_def)
  have "1 \<le> whole_word_occurrences FORBIDDEN_TOKENS sql"
    if "w \<in> set FORBIDDEN_TOKENS" "i < length sql" "whole_word_at w sql i" for w i
  proof -
    from that have "i \<in> set (filter (\<lambda>i. list_ex (\<lambda>w. whole_word_at w sql i) FORBIDDEN_TOKENS)
                              [0..<length sql])"
      by (auto simp: list_ex_iff)
    then have "filter (\<lambda>i. list_ex (\<lambda>w. whole_word_at w sql i) FORBIDDEN_TOKENS)
                 [0..<length sql] \<noteq> []"
      by (metis empty_iff empty_set)
    then show ?thesis
      unfolding whole_word_occurrences_def by (simp add: Suc_le_eq)
  qed
  with eq show ?thesis by auto
qed

lemma demo_whole_word: "whole_word_at ''drop'' ''a; Drop t'' 3"
  by code_simp

theorem count_forbidden_tokens_witness:
  "whole_word_at ''drop'' ''a; Drop t'' 3
   \<and> 1 \<le> count_forbidden_tokens FORBIDDEN_TOKENS ''a; Drop t''
   \<and> count_forbidden_tokens FORBIDDEN_TOKENS ''a; Drop t''
       = whole_word_occurrences FORBIDDEN_TOKENS ''a; Drop t''"
proof -
  have m: "''drop'' \<in> set FORBIDDEN_TOKENS" by (simp add: FORBIDDEN_TOKENS_def)
  have l: "3 < length ''a; Drop t''" by simp
  from count_forbidden_tokens_counts_whole_words[of "''a; Drop t''"] m l demo_whole_word
  show ?thesis by blast
qed

section \<open>The complexity score\<close>












lemma plain_select: "plain_word ''select''"
  by (simp add: plain_word_def is_word_def)

lemma lower_select: "lower ''select'' = ''select''"
  by (simp add: lower_def lower_char_def)

lemma lower_char_nonword: "\<not> is_word c \<Longrightarrow> lower_char c = c"
proof -
  assume a: "\<not> is_word c"
  have r: "\<not> ((65 \<le> n \<and> n \<le> 90) \<or> (192 \<le> n \<and> n \<le> 222 \<and> n \<noteq> 215))"
    if "\<not> ((48 \<le> n \<and> n \<le> 57) \<or> (65 \<le> n \<and> n \<le> 90) \<or> n = 95 \<or> (97 \<le> n \<and> n \<le> 122)
         \<or> n = 170 \<or> n = 178 \<or> n = 179 \<or> n = 181 \<or> n = 185 \<or> n = 186
         \<or> (188 \<le> n \<and> n \<le> 190) \<or> (192 \<le> n \<and> n \<le> 214)
         \<or> (216 \<le> n \<and> n \<le> 246) \<or> 248 \<le> n)" for n :: nat
    using that by presburger
  from a have "\<not> ((65 \<le> (of_char c :: nat) \<and> (of_char c :: nat) \<le> 90)
           \<or> (192 \<le> (of_char c :: nat) \<and> (of_char c :: nat) \<le> 222 \<and> (of_char c :: nat) \<noteq> 215))"
    unfolding is_word_def Let_def by (rule r)
  then show ?thesis
    unfolding lower_char_def Let_def by (simp only: if_False)
qed

lemma lower_char_paren: "lower_char c = CHR ''('' \<longleftrightarrow> c = CHR ''(''"
proof
  assume a: "lower_char c = CHR ''(''"
  have "\<not> is_word (CHR ''('')" by (simp add: is_word_def)
  with a have "\<not> is_word c" by (metis is_word_lower_char)
  with a show "c = CHR ''(''" by (simp add: lower_char_nonword)
next
  assume "c = CHR ''(''"
  then show "lower_char c = CHR ''(''" by (simp add: lower_char_def)
qed

lemma isspace_not_s: "isspace d \<Longrightarrow> lower_char d \<noteq> CHR ''s''"
proof
  assume "isspace d" "lower_char d = CHR ''s''"
  then have "isspace (CHR ''s'')" by (metis isspace_lower_char)
  then show False by (simp add: isspace_def)
qed

lemma lower_paren: "lower_char (CHR ''('') = CHR ''(''"
  by (simp add: lower_char_def)


definition opens :: "string \<Rightarrow> bool" where
  "opens u = (case u of [] \<Rightarrow> False
              | c # cs \<Rightarrow> c = CHR ''('' \<and> lower (take 6 (dropWhile isspace cs)) = ''select''
                           \<and> \<not> word_after (drop 6 (dropWhile isspace cs)))"

lemma ends_select:
  "ends True (Seq (Lit ''select'') WordB) q v
   = (if lower (take 6 v) = ''select'' \<and> \<not> word_after (drop 6 v) then [6] else [])"
proof -
  have l: "length ''select'' = 6" by simp
  from ends_token_boundary[OF plain_select, of q v] show ?thesis
    unfolding l lower_select by (simp del: ends.simps(1,3))
qed

lemma ends_subquery_tail:
  "ends True (Seq StarSpace (Seq (Lit ''select'') WordB)) q cs
   = (if lower (take 6 (dropWhile isspace cs)) = ''select''
         \<and> \<not> word_after (drop 6 (dropWhile isspace cs))
      then [length (takeWhile isspace cs) + 6] else [])"
proof -
  have "ends True (Seq (Lit ''select'') WordB) (prev_at q cs n) (drop n cs) = []"
    if "n < length (takeWhile isspace cs)" for n
  proof -
    from isspace_before_run[OF that] obtain d ds where "drop n cs = d # ds" "isspace d"
      by (cases "drop n cs") auto
    then show ?thesis
      using isspace_not_s[of d] by (simp add: ends_select lower_def del: ends.simps)
  qed
  then show ?thesis
    by (subst ends_Seq_StarSpace) (simp_all add: ends_select del: ends.simps)
qed

lemma ends_subquery:
  "ends True subquery_pattern p u
   = (if opens u then [Suc (length (takeWhile isspace (tl u)) + 6)] else [])"
proof (cases u)
  case Nil
  then show ?thesis
    by (simp add: subquery_pattern_def opens_def fold_case_def lower_def)
next
  case (Cons c cs)
  have "ends True subquery_pattern p (c # cs)
        = (if lower_char c = CHR ''(''
           then map Suc (ends True (Seq StarSpace (Seq (Lit ''select'') WordB)) (Some c) cs)
           else [])"
    unfolding subquery_pattern_def
    by (subst ends.simps(6))
       (simp add: fold_case_def lower_def prev_at_def lower_char_paren lower_paren
          del: ends.simps(6))
  then show ?thesis
    using Cons by (simp add: ends_subquery_tail opens_def lower_char_paren del: ends.simps)
qed




lemma ends_subquery_prev: "ends True subquery_pattern p u = ends True subquery_pattern q u"
  by (simp add: ends_subquery)







lemma inr_append: "[m. Inr m \<leftarrow> xs @ ys] = [m. Inr m \<leftarrow> xs] @ [m. Inr m \<leftarrow> ys]"
  by simp












section \<open>Similarity: \<open>difflib.SequenceMatcher\<close>\<close>

text \<open>
  \<open>compute_similarity\<close> is \<open>SequenceMatcher(None, a, b).ratio()\<close> of the standard library.
  The matcher is written out from \<open>difflib.py\<close> (CPython 3.11) for the case the
  program uses: no junk function, \<open>autojunk\<close> on.

  \<open>__chain_b\<close>: \<open>b2j\<close> maps every character of \<open>b\<close> to the list of its positions, in
  increasing order; when \<open>b\<close> has at least 200 characters, the characters that occur more
  than \<open>len(b) // 100 + 1\<close> times are removed from it. The junk set stays empty.
\<close>

definition chain_b :: "string \<Rightarrow> (char \<rightharpoonup> nat list)" where
  "chain_b b =
     (let b2j = fold (\<lambda>(i, elt) m. m(elt \<mapsto> (case m elt of None \<Rightarrow> [] | Some indices \<Rightarrow> indices) @ [i]))
                  (enumerate 0 b) Map.empty;
          n = length b
      in if 200 \<le> n
         then (let ntest = n div 100 + 1
               in (\<lambda>elt. case b2j elt of
                            None \<Rightarrow> None
                          | Some idxs \<Rightarrow> if ntest < length idxs then None else Some idxs))
         else b2j)"

definition isbjunk :: "char \<Rightarrow> bool" where
  "isbjunk c = False"

text \<open>
  \<open>find_longest_match\<close>. The inner loop runs over the positions \<open>j\<close> of \<open>a[i]\<close> in \<open>b\<close>
  (\<open>continue\<close> below \<open>blo\<close>, \<open>break\<close> from \<open>bhi\<close> on); \<open>j2len\<close> is the dictionary of the
  previous row and \<open>j2len.get(j-1, 0)\<close> is 0 for \<open>j = 0\<close>, no key being negative. The
  length \<open>k\<close> never exceeds \<open>i + 1\<close> and \<open>j + 1\<close> (\<open>inner_loop_in_window\<close> below), so
  that \<open>i-k+1\<close> and \<open>j-k+1\<close> are the natural numbers written here.
\<close>

fun inner_loop ::
  "nat \<Rightarrow> nat \<Rightarrow> nat \<Rightarrow> (nat \<rightharpoonup> nat) \<Rightarrow> nat list \<Rightarrow> (nat \<rightharpoonup> nat) \<times> nat \<times> nat \<times> nat
   \<Rightarrow> (nat \<rightharpoonup> nat) \<times> nat \<times> nat \<times> nat" where
  "inner_loop blo bhi i j2len [] st = st"
| "inner_loop blo bhi i j2len (j # js) (newj2len, besti, bestj, bestsize) =
     (if j < blo then inner_loop blo bhi i j2len js (newj2len, besti, bestj, bestsize)
      else if bhi \<le> j then (newj2len, besti, bestj, bestsize)
      else (let k = (if j = 0 then 0 else case j2len (j - 1) of None \<Rightarrow> 0 | Some v \<Rightarrow> v) + 1
            in if bestsize < k
               then inner_loop blo bhi i j2len js (newj2len(j \<mapsto> k), i + 1 - k, j + 1 - k, k)
               else inner_loop blo bhi i j2len js (newj2len(j \<mapsto> k), besti, bestj, bestsize)))"

definition longest_junk_free ::
  "string \<Rightarrow> (char \<rightharpoonup> nat list) \<Rightarrow> nat \<Rightarrow> nat \<Rightarrow> nat \<Rightarrow> nat \<Rightarrow> nat \<times> nat \<times> nat" where
  "longest_junk_free a b2j alo ahi blo bhi =
     snd (fold (\<lambda>i (j2len, best).
                  inner_loop blo bhi i j2len (case b2j (a ! i) of None \<Rightarrow> [] | Some js \<Rightarrow> js)
                    (Map.empty, best))
            [alo..<ahi] (Map.empty, alo, blo, 0))"

text \<open>
  The four \<open>while\<close> loops that extend the best match to the left and to the right, first
  over characters that are not junk and then over junk characters.
\<close>

function extend_left ::
  "string \<Rightarrow> string \<Rightarrow> (char \<Rightarrow> bool) \<Rightarrow> nat \<Rightarrow> nat \<Rightarrow> nat \<times> nat \<times> nat \<Rightarrow> nat \<times> nat \<times> nat" where
  "extend_left a b P alo blo (besti, bestj, bestsize) =
     (if alo < besti \<and> blo < bestj \<and> P (b ! (bestj - 1)) \<and> a ! (besti - 1) = b ! (bestj - 1)
      then extend_left a b P alo blo (besti - 1, bestj - 1, bestsize + 1)
      else (besti, bestj, bestsize))"
  by pat_completeness auto
termination
  by (relation "measure (\<lambda>(a, b, P, alo, blo, besti, bestj, bestsize). besti)") auto

function extend_right ::
  "string \<Rightarrow> string \<Rightarrow> (char \<Rightarrow> bool) \<Rightarrow> nat \<Rightarrow> nat \<Rightarrow> nat \<times> nat \<times> nat \<Rightarrow> nat \<times> nat \<times> nat" where
  "extend_right a b P ahi bhi (besti, bestj, bestsize) =
     (if besti + bestsize < ahi \<and> bestj + bestsize < bhi \<and> P (b ! (bestj + bestsize))
         \<and> a ! (besti + bestsize) = b ! (bestj + bestsize)
      then extend_right a b P ahi bhi (besti, bestj, bestsize + 1)
      else (besti, bestj, bestsize))"
  by pat_completeness auto
termination
  by (relation "measure (\<lambda>(a, b, P, ahi, bhi, besti, bestj, bestsize). ahi - (besti + bestsize))")
     auto

declare extend_left.simps [simp del] extend_right.simps [simp del]

definition find_longest_match :: "string \<Rightarrow> string \<Rightarrow> nat \<Rightarrow> nat \<Rightarrow> nat \<Rightarrow> nat \<Rightarrow> nat \<times> nat \<times> nat" where
  "find_longest_match a b alo ahi blo bhi =
     extend_right a b isbjunk ahi bhi
       (extend_left a b isbjunk alo blo
          (extend_right a b (\<lambda>c. \<not> isbjunk c) ahi bhi
             (extend_left a b (\<lambda>c. \<not> isbjunk c) alo blo
                (longest_junk_free a (chain_b b) alo ahi blo bhi))))"


text \<open>
  The match returned for a window lies inside the window, and is \<open>(alo, blo, 0)\<close> when
  it is empty.
\<close>

definition in_window :: "nat \<Rightarrow> nat \<Rightarrow> nat \<Rightarrow> nat \<Rightarrow> nat \<times> nat \<times> nat \<Rightarrow> bool" where
  "in_window alo ahi blo bhi m =
     (case m of (i, j, k) \<Rightarrow>
        if k = 0 then i = alo \<and> j = blo
        else alo \<le> i \<and> blo \<le> j \<and> i + k \<le> ahi \<and> j + k \<le> bhi)"

definition row_ok :: "nat \<Rightarrow> nat \<Rightarrow> nat \<Rightarrow> nat \<Rightarrow> (nat \<rightharpoonup> nat) \<Rightarrow> bool" where
  "row_ok alo blo bhi r m =
     (\<forall>j k. m j = Some k \<longrightarrow> blo \<le> j \<and> j < bhi \<and> 0 < k \<and> k + alo \<le> r \<and> k + blo \<le> j + 1)"

lemma within_mono: "in_window alo n blo bhi m \<Longrightarrow> n \<le> ahi \<Longrightarrow> in_window alo ahi blo bhi m"
  by (auto simp: in_window_def split: if_splits)

lemma inner_loop_in_window:
  assumes "alo \<le> i" "row_ok alo blo bhi i j2len"
  shows "row_ok alo blo bhi (Suc i) new \<Longrightarrow> in_window alo (Suc i) blo bhi best \<Longrightarrow>
         row_ok alo blo bhi (Suc i) (fst (inner_loop blo bhi i j2len js (new, best)))
         \<and> in_window alo (Suc i) blo bhi (snd (inner_loop blo bhi i j2len js (new, best)))"
proof (induction js arbitrary: new best)
  case Nil
  then show ?case by simp
next
  case (Cons j js)
  obtain besti bestj bestsize where best: "best = (besti, bestj, bestsize)"
    by (cases best) auto
  show ?case
  proof (cases "j < blo \<or> bhi \<le> j")
    case True
    then show ?thesis
      using Cons best by auto
  next
    case False
    define k where "k = (if j = 0 then 0 else case j2len (j - 1) of None \<Rightarrow> 0 | Some v \<Rightarrow> v) + 1"
    have k: "0 < k" "k + alo \<le> Suc i" "k + blo \<le> j + 1"
    proof -
      show "0 < k" by (simp add: k_def)
      show "k + alo \<le> Suc i"
        using assms by (auto simp: k_def row_ok_def split: option.split)
      show "k + blo \<le> j + 1"
      proof (cases "j = 0")
        case True
        with False show ?thesis by (simp add: k_def)
      next
        case j: False
        show ?thesis
        proof (cases "j2len (j - 1)")
          case None
          with j False show ?thesis by (simp add: k_def)
        next
          case (Some v)
          with assms(2) have "v + blo \<le> j - 1 + 1" by (simp add: row_ok_def)
          with j Some show ?thesis by (simp add: k_def)
        qed
      qed
    qed
    have new': "row_ok alo blo bhi (Suc i) (new(j \<mapsto> k))"
      using Cons.prems(1) k False by (auto simp: row_ok_def)
    have best': "in_window alo (Suc i) blo bhi (i + 1 - k, j + 1 - k, k)"
      using k False by (auto simp: in_window_def)
    have step: "inner_loop blo bhi i j2len (j # js) (new, besti, bestj, bestsize)
                = (if bestsize < k
                   then inner_loop blo bhi i j2len js (new(j \<mapsto> k), i + 1 - k, j + 1 - k, k)
                   else inner_loop blo bhi i j2len js (new(j \<mapsto> k), besti, bestj, bestsize))"
      using False by (simp add: k_def Let_def)
    show ?thesis
    proof (cases "bestsize < k")
      case True
      with Cons.IH[OF new' best'] show ?thesis
        unfolding best step by (simp only: if_True)
    next
      case b: False
      with Cons.IH[OF new' Cons.prems(2)] show ?thesis
        unfolding best step by (simp only: if_False)
    qed
  qed
qed

lemma rows_in_window:
  "row_ok alo blo bhi n
     (fst (fold (\<lambda>i (j2len, best).
                  inner_loop blo bhi i j2len (case b2j (a ! i) of None \<Rightarrow> [] | Some js \<Rightarrow> js)
                    (Map.empty, best))
            [alo..<n] (Map.empty, alo, blo, 0)))
   \<and> in_window alo n blo bhi
     (snd (fold (\<lambda>i (j2len, best).
                  inner_loop blo bhi i j2len (case b2j (a ! i) of None \<Rightarrow> [] | Some js \<Rightarrow> js)
                    (Map.empty, best))
            [alo..<n] (Map.empty, alo, blo, 0)))"
proof (induction n)
  case 0
  show ?case by (simp add: row_ok_def in_window_def)
next
  case (Suc n)
  show ?case
  proof (cases "alo \<le> n")
    case False
    then show ?thesis by (simp add: row_ok_def in_window_def)
  next
    case True
    let ?f = "\<lambda>i (j2len, best).
                  inner_loop blo bhi i j2len (case b2j (a ! i) of None \<Rightarrow> [] | Some js \<Rightarrow> js)
                    (Map.empty, best)"
    obtain m best where st: "fold ?f [alo..<n] (Map.empty, alo, blo, 0) = (m, best)"
      by (cases "fold ?f [alo..<n] (Map.empty, alo, blo, 0)") auto
    with Suc have m: "row_ok alo blo bhi n m" and b: "in_window alo n blo bhi best"
      by simp_all
    have e: "row_ok alo blo bhi (Suc n) Map.empty" by (simp add: row_ok_def)
    from b have b': "in_window alo (Suc n) blo bhi best" by (rule within_mono) simp
    from inner_loop_in_window[OF True m e b'] True st show ?thesis
      by simp
  qed
qed

lemma longest_junk_free_in_window:
  "in_window alo ahi blo bhi (longest_junk_free a b2j alo ahi blo bhi)"
  unfolding longest_junk_free_def using rows_in_window[of alo blo bhi ahi b2j a] by simp

lemma extend_left_in_window:
  "in_window alo ahi blo bhi m \<Longrightarrow> in_window alo ahi blo bhi (extend_left a b P alo blo m)"
proof (induction a b P alo blo m rule: extend_left.induct)
  case (1 a b P alo blo besti bestj bestsize)
  show ?case
  proof (cases "alo < besti \<and> blo < bestj \<and> P (b ! (bestj - 1)) \<and> a ! (besti - 1) = b ! (bestj - 1)")
    case True
    have "in_window alo ahi blo bhi (besti - 1, bestj - 1, bestsize + 1)"
      using 1(2) True by (auto simp: in_window_def split: if_splits)
    from 1(1)[OF True this] True show ?thesis
      by (subst extend_left.simps) simp
  next
    case False
    with 1(2) show ?thesis by (subst extend_left.simps) auto
  qed
qed

lemma extend_right_in_window:
  "in_window alo ahi blo bhi m \<Longrightarrow> in_window alo ahi blo bhi (extend_right a b P ahi bhi m)"
proof (induction a b P ahi bhi m rule: extend_right.induct)
  case (1 a b P ahi bhi besti bestj bestsize)
  show ?case
  proof (cases "besti + bestsize < ahi \<and> bestj + bestsize < bhi \<and> P (b ! (bestj + bestsize))
         \<and> a ! (besti + bestsize) = b ! (bestj + bestsize)")
    case True
    have "in_window alo ahi blo bhi (besti, bestj, bestsize + 1)"
      using 1(2) True by (auto simp: in_window_def split: if_splits)
    from 1(1)[OF True this] True show ?thesis
      by (subst extend_right.simps) simp
  next
    case False
    with 1(2) show ?thesis by (subst extend_right.simps) auto
  qed
qed

lemma find_longest_match_in_window:
  "in_window alo ahi blo bhi (find_longest_match a b alo ahi blo bhi)"
  unfolding find_longest_match_def
  by (intro extend_right_in_window extend_left_in_window longest_junk_free_in_window)

text \<open>
  \<open>get_matching_blocks\<close>: the loop over the queue of windows still to look at. The
  queue is used as a stack; its top is the head of the list here.
\<close>

function blocks_loop ::
  "string \<Rightarrow> string \<Rightarrow> (nat \<times> nat \<times> nat \<times> nat) list \<Rightarrow> (nat \<times> nat \<times> nat) list
   \<Rightarrow> (nat \<times> nat \<times> nat) list" where
  "blocks_loop a b [] matching_blocks = matching_blocks"
| "blocks_loop a b ((alo, ahi, blo, bhi) # queue) matching_blocks =
     (case find_longest_match a b alo ahi blo bhi of
        (i, j, k) \<Rightarrow>
          if k \<noteq> 0
          then blocks_loop a b
                 ((if i + k < ahi \<and> j + k < bhi then [(i + k, ahi, j + k, bhi)] else [])
                  @ (if alo < i \<and> blo < j then [(alo, i, blo, j)] else [])
                  @ queue)
                 (matching_blocks @ [(i, j, k)])
          else blocks_loop a b queue matching_blocks)"
  by pat_completeness auto
termination
  apply (relation "measure (\<lambda>(a, b, queue, matching_blocks).
                    sum_list (map (\<lambda>(alo, ahi, blo, bhi). 2 * (ahi - alo) + 1) queue))")
    apply simp
  subgoal for a b alo ahi blo bhi queue matching_blocks x y xa ya
    using find_longest_match_in_window[of alo ahi blo bhi a b]
    by (auto simp: in_window_def)
  subgoal by simp
  done

text \<open>
  The rest of \<open>get_matching_blocks\<close>: the blocks are sorted, adjacent blocks are
  collapsed into one, and the dummy \<open>(len(a), len(b), 0)\<close> is appended.
\<close>

definition collapse ::
  "nat \<times> nat \<times> nat \<Rightarrow> nat \<times> nat \<times> nat \<times> (nat \<times> nat \<times> nat) list
   \<Rightarrow> nat \<times> nat \<times> nat \<times> (nat \<times> nat \<times> nat) list" where
  "collapse m st =
     (case (m, st) of
        ((i2, j2, k2), (i1, j1, k1, non_adjacent)) \<Rightarrow>
          if i1 + k1 = i2 \<and> j1 + k1 = j2 then (i1, j1, k1 + k2, non_adjacent)
          else (i2, j2, k2, if k1 \<noteq> 0 then non_adjacent @ [(i1, j1, k1)] else non_adjacent))"

definition get_matching_blocks :: "string \<Rightarrow> string \<Rightarrow> (nat \<times> nat \<times> nat) list" where
  "get_matching_blocks a b =
     (let la = length a;
          lb = length b;
          matching_blocks = sort (blocks_loop a b [(0, la, 0, lb)] [])
      in case fold collapse matching_blocks (0, 0, 0, []) of
           (i1, j1, k1, non_adjacent) \<Rightarrow>
             (if k1 \<noteq> 0 then non_adjacent @ [(i1, j1, k1)] else non_adjacent) @ [(la, lb, 0)])"

text \<open>
  \<open>ratio\<close> and \<open>_calculate_ratio\<close>. The quotient \<open>2.0 * matches / length\<close> of the two
  integers is taken as a real number.
\<close>

definition calculate_ratio :: "nat \<Rightarrow> nat \<Rightarrow> real" where
  "calculate_ratio matches len = (if len \<noteq> 0 then 2 * real matches / real len else 1)"

definition ratio :: "string \<Rightarrow> string \<Rightarrow> real" where
  "ratio a b =
     calculate_ratio (sum_list (map (\<lambda>(i, j, k). k) (get_matching_blocks a b)))
       (length a + length b)"

definition compute_similarity :: "string \<Rightarrow> string \<Rightarrow> real" where
  "compute_similarity a b = ratio a b"

lemma demo_blocks_tide_diet: "get_matching_blocks ''tide'' ''diet'' = [(0, 3, 1), (4, 4, 0)]"
  by code_simp

lemma demo_blocks_diet_tide:
  "get_matching_blocks ''diet'' ''tide'' = [(0, 2, 1), (2, 3, 1), (4, 4, 0)]"
  by code_simp

text \<open>
  C8, the claim as stated: the similarity is not symmetric. Of \<open>tide\<close> and \<open>diet\<close> the
  matcher finds one common character in one order and two in the other.
\<close>

theorem compute_similarity_not_symmetric:
  "compute_similarity ''tide'' ''diet'' = 1 / 4
   \<and> compute_similarity ''diet'' ''tide'' = 1 / 2
   \<and> compute_similarity ''tide'' ''diet'' \<noteq> compute_similarity ''diet'' ''tide''"
  by (simp add: compute_similarity_def ratio_def calculate_ratio_def demo_blocks_tide_diet
      demo_blocks_diet_tide)

text \<open>
  The number of matched characters. Every block found in a window is taken from the
  window, and the two windows that remain lie on either side of it: the blocks found
  from a window together are no longer than its shorter side.
\<close>

definition matched :: "(nat \<times> nat \<times> nat) list \<Rightarrow> nat" where
  "matched blocks = sum_list (map (\<lambda>(i, j, k). k) blocks)"

definition capacity :: "nat \<times> nat \<times> nat \<times> nat \<Rightarrow> nat" where
  "capacity w = (case w of (alo, ahi, blo, bhi) \<Rightarrow> min (ahi - alo) (bhi - blo))"

lemma matched_append: "matched (xs @ ys) = matched xs + matched ys"
  by (simp add: matched_def)

lemma matched_Cons: "matched ((i, j, k) # xs) = k + matched xs"
  by (simp add: matched_def)

lemma matched_Nil: "matched [] = 0"
  by (simp add: matched_def)

declare blocks_loop.simps(2) [simp del]

lemma collapse_apply:
  "collapse (i2, j2, k2) (i1, j1, k1, non_adjacent) =
     (if i1 + k1 = i2 \<and> j1 + k1 = j2 then (i1, j1, k1 + k2, non_adjacent)
      else (i2, j2, k2, if k1 \<noteq> 0 then non_adjacent @ [(i1, j1, k1)] else non_adjacent))"
  by (simp add: collapse_def)

lemma blocks_loop_step:
  "blocks_loop a b ((alo, ahi, blo, bhi) # queue) matching_blocks =
     (let m = find_longest_match a b alo ahi blo bhi;
          i = fst m; j = fst (snd m); k = snd (snd m)
      in if k \<noteq> 0
         then blocks_loop a b
                ((if i + k < ahi \<and> j + k < bhi then [(i + k, ahi, j + k, bhi)] else [])
                 @ (if alo < i \<and> blo < j then [(alo, i, blo, j)] else [])
                 @ queue)
                (matching_blocks @ [(i, j, k)])
         else blocks_loop a b queue matching_blocks)"
  by (subst blocks_loop.simps(2)) (simp add: Let_def split: prod.split)

lemma blocks_loop_matched:
  "matched (blocks_loop a b queue matching_blocks)
   \<le> matched matching_blocks + sum_list (map capacity queue)"
proof (induction a b queue matching_blocks rule: blocks_loop.induct)
  case (1 a b matching_blocks)
  show ?case by simp
next
  case (2 a b alo ahi blo bhi queue matching_blocks)
  obtain i j k where m: "find_longest_match a b alo ahi blo bhi = (i, j, k)"
    by (cases "find_longest_match a b alo ahi blo bhi") auto
  show ?case
  proof (cases "k = 0")
    case True
    with 2(2)[OF m[symmetric] refl] m show ?thesis
      by (simp add: blocks_loop_step)
  next
    case False
    from find_longest_match_in_window[of alo ahi blo bhi a b] m False
    have w: "alo \<le> i" "blo \<le> j" "i + k \<le> ahi" "j + k \<le> bhi"
      by (simp_all add: in_window_def)
    let ?q = "(if i + k < ahi \<and> j + k < bhi then [(i + k, ahi, j + k, bhi)] else [])
              @ (if alo < i \<and> blo < j then [(alo, i, blo, j)] else [])"
    have "k + sum_list (map capacity ?q) \<le> capacity (alo, ahi, blo, bhi)"
      using w by (auto simp: capacity_def)
    moreover have "matched (blocks_loop a b (?q @ queue) (matching_blocks @ [(i, j, k)]))
                   \<le> matched (matching_blocks @ [(i, j, k)]) + sum_list (map capacity (?q @ queue))"
      using 2(1)[OF m[symmetric] refl] False by simp
    ultimately show ?thesis
      using m False
      by (simp add: blocks_loop_step matched_append matched_Cons matched_Nil)
  qed
qed

lemma matched_insort: "matched (insort x xs) = matched [x] + matched xs"
  by (induction xs) (auto simp: matched_def)

lemma matched_sort: "matched (sort xs) = matched xs"
  by (induction xs) (auto simp: matched_insort sort_key_simps, simp add: matched_def)

lemma collapse_matched:
  "fold collapse xs (i1, j1, k1, na) = (i1', j1', k1', na')
   \<Longrightarrow> k1' + matched na' = k1 + matched na + matched xs"
proof (induction xs arbitrary: i1 j1 k1 na)
  case Nil
  then show ?case by (simp add: matched_def)
next
  case (Cons x xs)
  obtain i2 j2 k2 where x: "x = (i2, j2, k2)" by (cases x) auto
  show ?case
  proof (cases "i1 + k1 = i2 \<and> j1 + k1 = j2")
    case True
    with Cons.prems x have "fold collapse xs (i1, j1, k1 + k2, na) = (i1', j1', k1', na')"
      by (simp add: collapse_apply)
    from Cons.IH[OF this] x show ?thesis by (simp add: matched_Cons)
  next
    case False
    with Cons.prems x
    have "fold collapse xs (i2, j2, k2, if k1 \<noteq> 0 then na @ [(i1, j1, k1)] else na)
          = (i1', j1', k1', na')"
      by (simp add: collapse_apply)
    from Cons.IH[OF this] x show ?thesis
      by (simp add: matched_Cons matched_append matched_Nil)
  qed
qed

lemma get_matching_blocks_matched:
  "matched (get_matching_blocks a b) = matched (blocks_loop a b [(0, length a, 0, length b)] [])"
proof -
  let ?bs = "sort (blocks_loop a b [(0, length a, 0, length b)] [])"
  obtain i1 j1 k1 na where f: "fold collapse ?bs (0, 0, 0, []) = (i1, j1, k1, na)"
    by (cases "fold collapse ?bs (0, 0, 0, [])") auto
  from collapse_matched[OF f] have "k1 + matched na = matched ?bs"
    by (simp add: matched_Nil)
  then show ?thesis
    using f by (simp add: get_matching_blocks_def Let_def matched_append matched_Cons matched_Nil
        matched_sort)
qed

lemma matched_le: "matched (get_matching_blocks a b) \<le> min (length a) (length b)"
  using blocks_loop_matched[of a b "[(0, length a, 0, length b)]" "[]"]
  by (simp add: get_matching_blocks_matched matched_Nil capacity_def)

lemma ratio_range: "0 \<le> ratio a b \<and> ratio a b \<le> 1"
proof -
  have "2 * matched (get_matching_blocks a b) \<le> length a + length b"
    using matched_le[of a b] by simp
  then have "2 * real (matched (get_matching_blocks a b)) \<le> real (length a + length b)"
    by (metis of_nat_le_iff of_nat_mult of_nat_numeral)
  then show ?thesis
    by (simp add: ratio_def calculate_ratio_def matched_def[symmetric] divide_le_eq)
qed

text \<open>
  A text compared with itself. \<open>b2j\<close> lists, for a character it keeps, all the positions
  of the character in increasing order.
\<close>

definition positions :: "string \<Rightarrow> char \<Rightarrow> nat list" where
  "positions s c = filter (\<lambda>j. s ! j = c) [0..<length s]"

lemma positions_snoc:
  "positions (xs @ [x]) c = positions xs c @ (if x = c then [length xs] else [])"
proof -
  have "filter (\<lambda>j. (xs @ [x]) ! j = c) [0..<length xs] = filter (\<lambda>j. xs ! j = c) [0..<length xs]"
    by (rule filter_cong) (simp_all add: nth_append)
  then show ?thesis by (simp add: positions_def)
qed

lemma positions_not_mem: "c \<notin> set s \<Longrightarrow> positions s c = []"
  by (auto simp: positions_def filter_empty_conv)

lemma b2j_fold:
  "fold (\<lambda>(i, elt) m. m(elt \<mapsto> (case m elt of None \<Rightarrow> [] | Some indices \<Rightarrow> indices) @ [i]))
     (enumerate 0 s) Map.empty c
   = (if c \<in> set s then Some (positions s c) else None)"
proof -
  define step :: "nat \<times> char \<Rightarrow> (char \<rightharpoonup> nat list) \<Rightarrow> (char \<rightharpoonup> nat list)"
    where "step = (\<lambda>(i, elt) m. m(elt \<mapsto> (case m elt of None \<Rightarrow> [] | Some indices \<Rightarrow> indices) @ [i]))"
  have step: "step (i, elt) m = m(elt \<mapsto> (case m elt of None \<Rightarrow> [] | Some indices \<Rightarrow> indices) @ [i])"
    for i elt m by (simp add: step_def)
  have "fold step (enumerate 0 s) Map.empty c
        = (if c \<in> set s then Some (positions s c) else None)"
  proof (induction s arbitrary: c rule: rev_induct)
    case Nil
    show ?case by simp
  next
    case (snoc x xs)
    have e: "fold step (enumerate 0 (xs @ [x])) Map.empty
          = step (length xs, x) (fold step (enumerate 0 xs) Map.empty)"
      by (simp add: enumerate_append_eq)
    show ?case
      unfolding e step by (simp add: snoc positions_snoc positions_not_mem)
  qed
  then show ?thesis by (simp only: step_def)
qed

lemma chain_b_Some: "chain_b s c = Some js \<Longrightarrow> js = positions s c"
  unfolding chain_b_def Let_def b2j_fold
  by (auto split: if_splits)

lemma positions_sorted: "sorted_wrt (<) (positions s c)"
  unfolding positions_def by (rule sorted_wrt_filter) (rule sorted_wrt_upt)

lemma positions_mem: "j \<in> set (positions s c) \<longleftrightarrow> j < length s \<and> s ! j = c"
  by (auto simp: positions_def)


text \<open>
  The rows of \<open>find_longest_match\<close> for a text and itself. \<open>kept_run K r\<close> is the number of
  consecutive positions just before \<open>r\<close> whose character \<open>b2j\<close> keeps. A cell \<open>(i, j)\<close> of
  the table never holds more than the diagonal cells \<open>(i, i)\<close> and \<open>(j, j)\<close>, and one of
  these two is visited before it: the best match stays on the diagonal.
\<close>

fun kept_run :: "(nat \<Rightarrow> bool) \<Rightarrow> nat \<Rightarrow> nat" where
  "kept_run K 0 = 0"
| "kept_run K (Suc i) = (if K i then Suc (kept_run K i) else 0)"

definition row_diag :: "(nat \<Rightarrow> bool) \<Rightarrow> nat \<Rightarrow> (nat \<rightharpoonup> nat) \<Rightarrow> bool" where
  "row_diag K r m = (\<forall>j k. m j = Some k \<longrightarrow> k \<le> kept_run K r \<and> k \<le> kept_run K (Suc j))"

definition best_diag :: "(nat \<Rightarrow> bool) \<Rightarrow> nat \<Rightarrow> nat \<times> nat \<times> nat \<Rightarrow> bool" where
  "best_diag K r best =
     (case best of (bi, bj, bk) \<Rightarrow> bi = bj \<and> bi + bk \<le> r \<and> (\<forall>t\<le>r. kept_run K t \<le> bk))"

definition getd :: "(nat \<rightharpoonup> nat) \<Rightarrow> nat \<Rightarrow> nat" where
  "getd m j = (if j = 0 then 0 else case m (j - 1) of None \<Rightarrow> 0 | Some v \<Rightarrow> v)"

lemma kept_run_le: "kept_run K r \<le> r"
  by (induction r) auto

lemma getd_le:
  assumes "row_diag K i m"
  shows "getd m j \<le> kept_run K i" and "getd m j \<le> kept_run K j"
proof -
  show "getd m j \<le> kept_run K i"
    using assms by (auto simp: getd_def row_diag_def split: option.split)
  show "getd m j \<le> kept_run K j"
  proof (cases j)
    case 0
    then show ?thesis by (simp add: getd_def)
  next
    case (Suc j')
    show ?thesis
    proof (cases "m j'")
      case None
      with Suc show ?thesis by (simp add: getd_def)
    next
      case (Some v)
      with assms have "v \<le> kept_run K (Suc j')"
        unfolding row_diag_def by blast
      with Suc Some show ?thesis by (simp add: getd_def del: kept_run.simps)
    qed
  qed
qed

lemma inner_loop_diag:
  assumes K: "K i" and m1: "row_diag K i m" and m2: "getd m i = kept_run K i"
  shows "sorted_wrt (<) js \<Longrightarrow> \<forall>j\<in>set js. j < n \<and> K j \<Longrightarrow> row_diag K (Suc i) new \<Longrightarrow>
         (i \<in> set js \<and> best_diag K i best)
         \<or> ((\<forall>j\<in>set js. i < j) \<and> best_diag K (Suc i) best \<and> new i = Some (kept_run K (Suc i))) \<Longrightarrow>
         row_diag K (Suc i) (fst (inner_loop 0 n i m js (new, best)))
         \<and> fst (inner_loop 0 n i m js (new, best)) i = Some (kept_run K (Suc i))
         \<and> best_diag K (Suc i) (snd (inner_loop 0 n i m js (new, best)))"
proof (induction js arbitrary: new best)
  case Nil
  then show ?case by simp
next
  case (Cons j js)
  obtain bi bj bk where best: "best = (bi, bj, bk)" by (cases best) auto
  from Cons.prems(1) have srt: "sorted_wrt (<) js" and lt: "\<forall>x\<in>set js. j < x" by simp_all
  from Cons.prems(2) have j: "j < n" "K j" and rest: "\<forall>j\<in>set js. j < n \<and> K j" by simp_all
  define k where "k = getd m j + 1"
  have step: "inner_loop 0 n i m (j # js) (new, bi, bj, bk)
              = (if bk < k
                 then inner_loop 0 n i m js (new(j \<mapsto> k), i + 1 - k, j + 1 - k, k)
                 else inner_loop 0 n i m js (new(j \<mapsto> k), bi, bj, bk))"
    using j(1) by (simp add: k_def getd_def Let_def)
  have k1: "k \<le> kept_run K (Suc i)"
    using getd_le(1)[OF m1, of j] K by (simp add: k_def)
  have k2: "k \<le> kept_run K (Suc j)"
    using getd_le(2)[OF m1, of j] j(2) by (simp add: k_def)
  have new': "row_diag K (Suc i) (new(j \<mapsto> k))"
    using Cons.prems(3) k1 k2 by (auto simp: row_diag_def)
  from Cons.prems(4) consider
      (diag) "j = i" "best_diag K i best"
    | (before) "j < i" "i \<in> set js" "best_diag K i best"
    | (after) "i < j" "\<forall>x\<in>set js. i < x" "best_diag K (Suc i) best" "new i = Some (kept_run K (Suc i))"
    using lt by (cases "j = i") (auto dest: bspec)
  then show ?case
  proof cases
    case diag
    have keq: "k = kept_run K (Suc i)"
      using m2 K diag(1) by (simp add: k_def)
    have after: "\<forall>x\<in>set js. i < x" using lt diag(1) by simp
    have ni: "(new(j \<mapsto> k)) i = Some (kept_run K (Suc i))"
      using diag(1) keq by simp
    from diag(2) best have b: "bi = bj" "bi + bk \<le> i" "\<forall>t\<le>i. kept_run K t \<le> bk"
      by (simp_all add: best_diag_def)
    show ?thesis
    proof (cases "bk < k")
      case True
      have "k \<le> Suc i" using keq kept_run_le[of K "Suc i"] by simp
      moreover have "kept_run K t \<le> k" if "t \<le> Suc i" for t
      proof (cases "t = Suc i")
        case True
        with keq show ?thesis by simp
      next
        case False
        with that have "t \<le> i" by simp
        with b(3) \<open>bk < k\<close> show ?thesis by (meson le_trans less_imp_le_nat)
      qed
      ultimately have "best_diag K (Suc i) (i + 1 - k, j + 1 - k, k)"
        using diag(1) by (simp add: best_diag_def)
      with Cons.IH[OF srt rest new', of "(i + 1 - k, j + 1 - k, k)"] after ni True
      show ?thesis unfolding best step by (simp only: if_True) blast
    next
      case False
      have "kept_run K t \<le> bk" if "t \<le> Suc i" for t
      proof (cases "t = Suc i")
        case True
        with keq False show ?thesis by simp
      next
        case f: False
        with that have "t \<le> i" by simp
        with b(3) show ?thesis by simp
      qed
      then have "best_diag K (Suc i) (bi, bj, bk)"
        using b by (simp add: best_diag_def)
      with Cons.IH[OF srt rest new', of "(bi, bj, bk)"] after ni False
      show ?thesis unfolding best step by (simp only: if_False) blast
    qed
  next
    case before
    from before(3) best have b: "\<forall>t\<le>i. kept_run K t \<le> bk"
      by (simp add: best_diag_def)
    from before(1) have "Suc j \<le> i" by simp
    with b have "kept_run K (Suc j) \<le> bk" by blast
    with k2 have nb: "\<not> bk < k" by simp
    from Cons.IH[OF srt rest new', of "(bi, bj, bk)"] before(2,3) best nb
    show ?thesis unfolding best step by (simp only: if_False) blast
  next
    case after
    from after(3) best have b: "\<forall>t\<le>Suc i. kept_run K t \<le> bk"
      by (simp add: best_diag_def)
    then have "kept_run K (Suc i) \<le> bk" by blast
    with k1 have nb: "\<not> bk < k" by simp
    have ni: "(new(j \<mapsto> k)) i = Some (kept_run K (Suc i))"
      using after(1,4) by simp
    from Cons.IH[OF srt rest new', of "(bi, bj, bk)"] after(2,3) best nb ni
    show ?thesis unfolding best step by (simp only: if_False) blast
  qed
qed


lemma rows_diag:
  fixes s :: string
  defines "K \<equiv> \<lambda>i. chain_b s (s ! i) \<noteq> None"
  defines "f \<equiv> \<lambda>i (j2len, best).
                  inner_loop 0 (length s) i j2len
                    (case chain_b s (s ! i) of None \<Rightarrow> [] | Some js \<Rightarrow> js) (Map.empty, best)"
  shows "r \<le> length s \<Longrightarrow>
         row_diag K r (fst (fold f [0..<r] (Map.empty, 0, 0, 0)))
         \<and> getd (fst (fold f [0..<r] (Map.empty, 0, 0, 0))) r = kept_run K r
         \<and> best_diag K r (snd (fold f [0..<r] (Map.empty, 0, 0, 0)))"
proof (induction r)
  case 0
  show ?case by (simp add: row_diag_def getd_def best_diag_def)
next
  case (Suc r)
  then have r: "r < length s" by simp
  obtain m best where st: "fold f [0..<r] (Map.empty, 0, 0, 0) = (m, best)"
    by (cases "fold f [0..<r] (Map.empty, 0, 0, 0)") auto
  with Suc have m1: "row_diag K r m" and m2: "getd m r = kept_run K r"
    and b: "best_diag K r best"
    by simp_all
  have fold_Suc: "fold f [0..<Suc r] (Map.empty, 0, 0, 0)
        = inner_loop 0 (length s) r m
            (case chain_b s (s ! r) of None \<Rightarrow> [] | Some js \<Rightarrow> js) (Map.empty, best)"
    using st by (simp add: f_def)
  have e: "row_diag K (Suc r) Map.empty" by (simp add: row_diag_def)
  show ?case
  proof (cases "chain_b s (s ! r)")
    case None
    then have nk: "\<not> K r" by (simp add: K_def)
    obtain bi bj bk where best: "best = (bi, bj, bk)" by (cases best) auto
    with b have "bi = bj" "bi + bk \<le> r" "\<forall>t\<le>r. kept_run K t \<le> bk"
      by (simp_all add: best_diag_def)
    moreover have "kept_run K t \<le> bk" if "t \<le> Suc r" for t
    proof (cases "t = Suc r")
      case True
      with nk show ?thesis by simp
    next
      case False
      with that have "t \<le> r" by simp
      with \<open>\<forall>t\<le>r. kept_run K t \<le> bk\<close> show ?thesis by simp
    qed
    ultimately have "best_diag K (Suc r) best"
      using best by (simp add: best_diag_def del: kept_run.simps)
    with None nk e show ?thesis
      unfolding fold_Suc by (simp add: getd_def)
  next
    case (Some js)
    then have k: "K r" by (simp add: K_def)
    from chain_b_Some[OF Some] have js: "js = positions s (s ! r)" .
    have srt: "sorted_wrt (<) js" unfolding js by (rule positions_sorted)
    have all: "\<forall>j\<in>set js. j < length s \<and> K j"
      using Some by (auto simp: js positions_mem K_def)
    have mem: "r \<in> set js" using r by (simp add: js positions_mem)
    from inner_loop_diag[OF k m1 m2 srt all e, of best] mem b
    have "row_diag K (Suc r) (fst (inner_loop 0 (length s) r m js (Map.empty, best)))
          \<and> fst (inner_loop 0 (length s) r m js (Map.empty, best)) r = Some (kept_run K (Suc r))
          \<and> best_diag K (Suc r) (snd (inner_loop 0 (length s) r m js (Map.empty, best)))"
      by blast
    then show ?thesis
      unfolding fold_Suc Some by (simp add: getd_def del: kept_run.simps)
  qed
qed

lemma longest_junk_free_self:
  "\<exists>d k. longest_junk_free s (chain_b s) 0 (length s) 0 (length s) = (d, d, k)
          \<and> d + k \<le> length s"
proof -
  let ?K = "\<lambda>i. chain_b s (s ! i) \<noteq> None"
  from rows_diag[of "length s" s]
  have "best_diag ?K (length s) (longest_junk_free s (chain_b s) 0 (length s) 0 (length s))"
    by (simp add: longest_junk_free_def)
  then show ?thesis
    by (cases "longest_junk_free s (chain_b s) 0 (length s) 0 (length s)")
       (simp add: best_diag_def)
qed

lemma extend_left_self:
  "extend_left s s (\<lambda>c. True) 0 0 (d, d, k) = (0, 0, d + k)"
proof (induction d arbitrary: k)
  case 0
  show ?case by (subst extend_left.simps) simp
next
  case (Suc d)
  from Suc[of "k + 1"] show ?case
    by (subst extend_left.simps) simp
qed

lemma extend_right_self:
  "m \<le> n \<Longrightarrow> extend_right s s (\<lambda>c. True) n n (0, 0, m) = (0, 0, n)"
proof (induction "n - m" arbitrary: m)
  case 0
  then show ?case by (subst extend_right.simps) simp
next
  case (Suc x)
  from Suc.hyps(2) have "m < n" by simp
  moreover from Suc.hyps(2) have "extend_right s s (\<lambda>c. True) n n (0, 0, m + 1) = (0, 0, n)"
    by (intro Suc.hyps(1)) simp_all
  ultimately show ?case
    by (subst extend_right.simps) simp
qed

lemma extend_left_junk: "extend_left a b isbjunk alo blo m = m"
proof (cases m)
  case (fields besti bestj bestsize)
  show ?thesis
    unfolding fields by (subst extend_left.simps) (simp add: isbjunk_def)
qed

lemma extend_right_junk: "extend_right a b isbjunk ahi bhi m = m"
proof (cases m)
  case (fields besti bestj bestsize)
  show ?thesis
    unfolding fields by (subst extend_right.simps) (simp add: isbjunk_def)
qed

lemma find_longest_match_self:
  "find_longest_match s s 0 (length s) 0 (length s) = (0, 0, length s)"
proof -
  from longest_junk_free_self[of s] obtain d k
    where "longest_junk_free s (chain_b s) 0 (length s) 0 (length s) = (d, d, k)"
      and "d + k \<le> length s"
    by blast
  then show ?thesis
    by (simp add: find_longest_match_def extend_left_junk extend_right_junk extend_left_self
        extend_right_self isbjunk_def)
qed

lemma blocks_loop_self:
  "blocks_loop s s [(0, length s, 0, length s)] []
   = (if length s \<noteq> 0 then [(0, 0, length s)] else [])"
  by (simp only: blocks_loop_step find_longest_match_self Let_def fst_conv snd_conv) simp

lemma get_matching_blocks_self: "matched (get_matching_blocks s s) = length s"
  by (simp only: get_matching_blocks_matched blocks_loop_self)
     (simp add: matched_Nil matched_Cons)

lemma ratio_self: "ratio s s = 1"
  using get_matching_blocks_self[of s]
  by (simp add: ratio_def calculate_ratio_def matched_def)


text \<open>
  C8, amended. The similarity of a text with itself is 1, and every similarity lies
  between 0 and 1. Symmetry is not part of it: the matcher looks up the characters of
  its first argument in an index of the second, and the blocks it finds depend on the
  order of the two.
\<close>

theorem compute_similarity_reflexive_and_bounded:
  "compute_similarity s s = 1
   \<and> 0 \<le> compute_similarity a b \<and> compute_similarity a b \<le> 1"
  by (simp add: compute_similarity_def ratio_self ratio_range)

end
